theory Spec2Isabelle
  imports Main "HOL-Library.Word" "HOL-Library.AList" "HOL-Library.Sublist"
begin

section \<open>Strings\<close>

text \<open>
  HTTP header names and values are byte strings (the Fetch standard's ByteString), modelled
  as \<open>string\<close>. Header names are HTTP tokens, hence ASCII, and on ASCII
  \<open>String.prototype.toLowerCase\<close> maps \<open>A\<close>..\<open>Z\<close> to \<open>a\<close>..\<open>z\<close>
  and leaves every other character alone. No byte outside ASCII lowers to an ASCII letter,
  so a lowered name equals an ASCII literal here exactly when it does in JavaScript.
\<close>

definition lower_char :: "char \<Rightarrow> char" where
  "lower_char c =
     (case map_of (zip ''ABCDEFGHIJKLMNOPQRSTUVWXYZ'' ''abcdefghijklmnopqrstuvwxyz'') c of
        Some d \<Rightarrow> d
      | None \<Rightarrow> c)"

definition toLowerCase :: "string \<Rightarrow> string" where
  "toLowerCase s = map lower_char s"

text \<open>\<open>s.includes(t)\<close>: \<open>t\<close> occurs in \<open>s\<close> as a contiguous substring.\<close>

fun str_includes :: "'a list \<Rightarrow> 'a list \<Rightarrow> bool" where
  "str_includes [] t = (t = [])"
| "str_includes (c # cs) t = (prefix t (c # cs) \<or> str_includes cs t)"

section \<open>JavaScript strings\<close>

text \<open>
  A JavaScript string is a sequence of 16-bit code units (UTF-16) and may hold unpaired
  surrogates. \<open>js\<close> embeds a byte string (ASCII or Latin-1 text) code unit by code unit.
\<close>

type_synonym jsstring = "16 word list"

definition cu :: "char \<Rightarrow> 16 word" where
  "cu c = of_nat (of_char c)"

definition js :: "string \<Rightarrow> jsstring" where
  "js s = map cu s"

definition is_lead :: "16 word \<Rightarrow> bool" where
  "is_lead c \<longleftrightarrow> 0xD800 \<le> unat c \<and> unat c \<le> 0xDBFF"

definition is_trail :: "16 word \<Rightarrow> bool" where
  "is_trail c \<longleftrightarrow> 0xDC00 \<le> unat c \<and> unat c \<le> 0xDFFF"

text \<open>A code unit that is no surrogate is a character by itself.\<close>

definition non_surrogate :: "16 word \<Rightarrow> bool" where
  "non_surrogate c \<longleftrightarrow> \<not> is_lead c \<and> \<not> is_trail c"

text \<open>A Unicode scalar value: a code point that is not a surrogate.\<close>

definition scalar_value :: "nat \<Rightarrow> bool" where
  "scalar_value v \<longleftrightarrow> v < 0xD800 \<or> (0xE000 \<le> v \<and> v \<le> 0x10FFFF)"

text \<open>\<open>String.prototype.isWellFormed\<close>: every surrogate is part of a lead, trail pair.\<close>

fun wellformed :: "jsstring \<Rightarrow> bool" where
  "wellformed [] = True"
| "wellformed (c # cs) =
     (if is_trail c then False
      else if is_lead c then (case cs of [] \<Rightarrow> False | d # ds \<Rightarrow> is_trail d \<and> wellformed ds)
      else wellformed cs)"

text \<open>
  \<open>startsWith\<close> is the prefix test. The rewriter lowers an attribute value only to test
  it against the ASCII prefixes \<open>mailto:\<close>, \<open>tel:\<close> and \<open>javascript:\<close>;
  \<open>lower_cu\<close> lowers the ASCII capitals and nothing else. No code point outside ASCII has
  a lower-case mapping that makes one of these prefixes appear (the candidates are U+212A,
  which gives \<open>k\<close>, and U+0130, which gives \<open>i\<close> followed by U+0307), so on these
  tests the model agrees with \<open>String.prototype.toLowerCase\<close>.
\<close>

definition startsWith :: "'a list \<Rightarrow> 'a list \<Rightarrow> bool" where
  "startsWith s p = prefix p s"

definition lower_cu :: "16 word \<Rightarrow> 16 word" where
  "lower_cu c = (if 0x41 \<le> unat c \<and> unat c \<le> 0x5A then c + 0x20 else c)"

definition toLowerCaseJs :: "jsstring \<Rightarrow> jsstring" where
  "toLowerCaseJs s = map lower_cu s"

datatype js_error = JsError (err_name: string) (err_message: string)

text \<open>The message of a \<open>URIError\<close> is implementation-defined; this is V8's.\<close>

definition URIError :: js_error where
  "URIError = JsError ''URIError'' ''URI malformed''"

section \<open>Link Wrapper: \<open>encodeURIComponent\<close> and \<open>wrap\<close>\<close>

text \<open>
  \<open>encodeURIComponent\<close> is ECMA-262's \<open>Encode\<close> with the unescaped set
  \<open>A-Z a-z 0-9 - _ . ! ~ * ' ( )\<close>. Every other code point is written as the
  percent-escaped octets of its UTF-8 encoding; an unpaired surrogate throws a
  \<open>URIError\<close>.
\<close>

definition uriUnescaped :: "16 word \<Rightarrow> bool" where
  "uriUnescaped c \<longleftrightarrow>
     (let n = unat c in
      (0x41 \<le> n \<and> n \<le> 0x5A) \<or> (0x61 \<le> n \<and> n \<le> 0x7A) \<or> (0x30 \<le> n \<and> n \<le> 0x39) \<or>
      n \<in> {0x2D, 0x5F, 0x2E, 0x21, 0x7E, 0x2A, 0x27, 0x28, 0x29})"

definition utf8_encode :: "nat \<Rightarrow> nat list" where
  "utf8_encode v =
     (if v < 0x80 then [v]
      else if v < 0x800 then [0xC0 + v div 64, 0x80 + v mod 64]
      else if v < 0x10000 then [0xE0 + v div 4096, 0x80 + v div 64 mod 64, 0x80 + v mod 64]
      else [0xF0 + v div 262144, 0x80 + v div 4096 mod 64, 0x80 + v div 64 mod 64,
            0x80 + v mod 64])"

text \<open>An octet is below 256, so both of its hex digits are looked up below 16.\<close>

definition hex_digit :: "nat \<Rightarrow> 16 word" where
  "hex_digit n = js ''0123456789ABCDEF'' ! n"

definition pct_octet :: "nat \<Rightarrow> jsstring" where
  "pct_octet b = [cu CHR ''%'', hex_digit (b div 16), hex_digit (b mod 16)]"

definition pct :: "nat list \<Rightarrow> jsstring" where
  "pct bs = concat (map pct_octet bs)"

text \<open>The code point of a surrogate pair (\<open>UTF16SurrogatePairToCodePoint\<close>).\<close>

definition pair_code_point :: "16 word \<Rightarrow> 16 word \<Rightarrow> nat" where
  "pair_code_point c d = (unat c - 0xD800) * 0x400 + (unat d - 0xDC00) + 0x10000"

fun encodeURIComponent :: "jsstring \<Rightarrow> js_error + jsstring" where
  "encodeURIComponent [] = Inr []"
| "encodeURIComponent (c # cs) =
     (if uriUnescaped c then
        (case encodeURIComponent cs of Inl e \<Rightarrow> Inl e | Inr r \<Rightarrow> Inr (c # r))
      else if is_trail c then Inl URIError
      else if is_lead c then
        (case cs of
           [] \<Rightarrow> Inl URIError
         | d # ds \<Rightarrow>
             if is_trail d then
               (case encodeURIComponent ds of
                  Inl e \<Rightarrow> Inl e
                | Inr r \<Rightarrow> Inr (pct (utf8_encode (pair_code_point c d)) @ r))
             else Inl URIError)
      else
        (case encodeURIComponent cs of
           Inl e \<Rightarrow> Inl e
         | Inr r \<Rightarrow> Inr (pct (utf8_encode (unat c)) @ r)))"

definition wrap :: "jsstring \<Rightarrow> js_error + jsstring" where
  "wrap url =
     (case encodeURIComponent url of
        Inl e \<Rightarrow> Inl e
      | Inr enc \<Rightarrow> Inr (js ''/api/proxy?url='' @ enc))"

section \<open>URL Resolver: \<open>toAbsolute\<close>\<close>

text \<open>
  The WHATWG URL parser is outside the repository. \<open>new URL(url, base).toString()\<close> is
  the parameter \<open>new_URL\<close>: \<open>None\<close> when the constructor throws, otherwise the
  serialized URL, which is a string of ASCII characters.
\<close>

type_synonym url_parser = "jsstring \<Rightarrow> jsstring \<Rightarrow> string option"

definition toAbsolute :: "url_parser \<Rightarrow> jsstring \<Rightarrow> jsstring \<Rightarrow> jsstring" where
  "toAbsolute new_URL url base =
     (case new_URL url base of
        Some href \<Rightarrow> js href
      | None \<Rightarrow> url)"

section \<open>Reading a wrapped path back: \<open>decodeURIComponent\<close> and the query parameter\<close>

text \<open>
  \<open>decodeURIComponent\<close> is ECMA-262's \<open>Decode\<close> with an empty reserved set, in two
  passes: \<open>unescape\<close> reads every \<open>%XX\<close> as an octet (a \<open>%\<close> without two hex
  digits throws), \<open>utf8_units\<close> reads the octets as UTF-8 and throws unless they are the
  well-formed encoding of a code point.
\<close>

datatype token = Lit "16 word" | Oct nat

definition hex_value :: "16 word \<Rightarrow> nat option" where
  "hex_value c =
     (let n = unat c in
      if 0x30 \<le> n \<and> n \<le> 0x39 then Some (n - 0x30)
      else if 0x41 \<le> n \<and> n \<le> 0x46 then Some (n - 0x41 + 10)
      else if 0x61 \<le> n \<and> n \<le> 0x66 then Some (n - 0x61 + 10)
      else None)"

fun unescape :: "jsstring \<Rightarrow> token list option" where
  "unescape [] = Some []"
| "unescape (c # cs) =
     (if c = cu CHR ''%'' then
        (case cs of
           a # b # rest \<Rightarrow>
             (case (hex_value a, hex_value b) of
                (Some x, Some y) \<Rightarrow> map_option ((#) (Oct (16 * x + y))) (unescape rest)
              | _ \<Rightarrow> None)
         | _ \<Rightarrow> None)
      else map_option ((#) (Lit c)) (unescape cs))"

definition continuation :: "nat \<Rightarrow> bool" where
  "continuation b \<longleftrightarrow> 0x80 \<le> b \<and> b < 0xC0"

definition utf16_encode :: "nat \<Rightarrow> jsstring" where
  "utf16_encode v =
     (if v < 0x10000 then [of_nat v]
      else [of_nat (0xD800 + (v - 0x10000) div 0x400), of_nat (0xDC00 + (v - 0x10000) mod 0x400)])"

fun utf8_units :: "token list \<Rightarrow> jsstring option" where
  "utf8_units [] = Some []"
| "utf8_units (Lit c # ts) = map_option ((#) c) (utf8_units ts)"
| "utf8_units (Oct b # ts) =
     (if b < 0x80 then map_option ((#) (of_nat b)) (utf8_units ts)
      else if b < 0xC0 then None
      else if b < 0xE0 then
        (case ts of
           Oct b1 # ts' \<Rightarrow>
             (let v = (b - 0xC0) * 64 + (b1 - 0x80) in
              if continuation b1 \<and> 0x80 \<le> v
              then map_option ((@) (utf16_encode v)) (utf8_units ts') else None)
         | _ \<Rightarrow> None)
      else if b < 0xF0 then
        (case ts of
           Oct b1 # Oct b2 # ts' \<Rightarrow>
             (let v = (b - 0xE0) * 4096 + (b1 - 0x80) * 64 + (b2 - 0x80) in
              if continuation b1 \<and> continuation b2 \<and> 0x800 \<le> v \<and> \<not> (0xD800 \<le> v \<and> v \<le> 0xDFFF)
              then map_option ((@) (utf16_encode v)) (utf8_units ts') else None)
         | _ \<Rightarrow> None)
      else if b < 0xF8 then
        (case ts of
           Oct b1 # Oct b2 # Oct b3 # ts' \<Rightarrow>
             (let v = (b - 0xF0) * 262144 + (b1 - 0x80) * 4096 + (b2 - 0x80) * 64 + (b3 - 0x80) in
              if continuation b1 \<and> continuation b2 \<and> continuation b3 \<and>
                 0x10000 \<le> v \<and> v \<le> 0x10FFFF
              then map_option ((@) (utf16_encode v)) (utf8_units ts') else None)
         | _ \<Rightarrow> None)
      else None)"

definition decodeURIComponent :: "jsstring \<Rightarrow> js_error + jsstring" where
  "decodeURIComponent s =
     (case unescape s of
        None \<Rightarrow> Inl URIError
      | Some ts \<Rightarrow> (case utf8_units ts of None \<Rightarrow> Inl URIError | Some r \<Rightarrow> Inr r))"

text \<open>\<open>s.split(sep)\<close>: the fields between the separators.\<close>

fun split_on :: "'a \<Rightarrow> 'a list \<Rightarrow> 'a list list" where
  "split_on sep [] = [[]]"
| "split_on sep (c # cs) =
     (if c = sep then [] # split_on sep cs
      else (case split_on sep cs of f # fs \<Rightarrow> (c # f) # fs | [] \<Rightarrow> [[c]]))"

text \<open>
  Modelled from the spec: the framework's query parsing is not part of the repository.
  Following the spec's words, the parameter is extracted from the wrapped path (the text
  after the first \<open>?\<close>, split at \<open>&\<close>, the first field named \<open>name\<close>, its text after
  the first \<open>=\<close>) and percent-decoded with \<open>decodeURIComponent\<close>. \<open>None\<close>: no such
  parameter.
\<close>

definition query_param :: "jsstring \<Rightarrow> jsstring \<Rightarrow> (js_error + jsstring) option" where
  "query_param name path =
     (let query = drop 1 (dropWhile (\<lambda>c. c \<noteq> cu CHR ''?'') path);
          fields = split_on (cu CHR ''&'') query
      in case find (\<lambda>f. takeWhile (\<lambda>c. c \<noteq> cu CHR ''='') f = name) fields of
           None \<Rightarrow> None
         | Some f \<Rightarrow> Some (decodeURIComponent (drop 1 (dropWhile (\<lambda>c. c \<noteq> cu CHR ''='') f))))"

text \<open>
  An ASCII code unit that is none of the delimiters \<open>&\<close>, \<open>=\<close>, \<open>?\<close> that
  \<open>query_param\<close> reads.
\<close>

definition safe_unit :: "16 word \<Rightarrow> bool" where
  "safe_unit c \<longleftrightarrow>
     unat c < 0x80 \<and> c \<noteq> cu CHR ''&'' \<and> c \<noteq> cu CHR ''='' \<and> c \<noteq> cu CHR ''?''"

section \<open>Markup Rewriter: \<open>rewriteHtml\<close>\<close>

subsection \<open>The document tree\<close>

text \<open>
  The parser and the serializer are cheerio's. The model starts from the parsed tree:
  elements with their tag name, their attributes (an ordered dictionary) and their children,
  and the leaves (text, comments, directives). \<open>load\<close> is \<open>cheerio.load(html)\<close>,
  \<open>parse_fragment\<close> parses markup handed to \<open>.html(str)\<close> (inside the context element
  named) or to \<open>.prepend(str)\<close> (no context), \<open>render\<close> serializes a list of nodes:
  the roots for \<open>$.html()\<close> (no context), the children of an element for
  \<open>$(el).html()\<close> (the context is the name of that element, below which the text may be
  written as it is).
\<close>

type_synonym attrs = "(jsstring \<times> jsstring) list"

datatype node =
    Element (tag: jsstring) (attribs: attrs) (children: "node list")
  | Text jsstring
  | Comment jsstring
  | Directive jsstring

record cheerio =
  load :: "jsstring \<Rightarrow> node list"
  parse_fragment :: "jsstring option \<Rightarrow> jsstring \<Rightarrow> node list"
  render :: "jsstring option \<Rightarrow> node list \<Rightarrow> jsstring"

text \<open>\<open>$(el).attr(name)\<close> and \<open>$(el).attr(name, value)\<close>.\<close>

definition attr_get :: "attrs \<Rightarrow> jsstring \<Rightarrow> jsstring option" where
  "attr_get as name = map_of as name"

definition attr_set :: "attrs \<Rightarrow> jsstring \<Rightarrow> jsstring \<Rightarrow> attrs" where
  "attr_set as name v = AList.update name v as"

text \<open>
  \<open>$(tag).each(cb)\<close> for a callback that changes the attributes of the element it is
  given: every element named \<open>tag\<close>, in document order. An exception thrown by the
  callback ends the traversal.
\<close>

fun each_node :: "jsstring \<Rightarrow> (attrs \<Rightarrow> js_error + attrs) \<Rightarrow> node \<Rightarrow> js_error + node"
  and each_nodes :: "jsstring \<Rightarrow> (attrs \<Rightarrow> js_error + attrs) \<Rightarrow> node list \<Rightarrow> js_error + node list"
where
  "each_node tg f (Element t as cs) =
     (case (if t = tg then f as else Inr as) of
        Inl e \<Rightarrow> Inl e
      | Inr as' \<Rightarrow>
          (case each_nodes tg f cs of
             Inl e \<Rightarrow> Inl e
           | Inr cs' \<Rightarrow> Inr (Element t as' cs')))"
| "each_node tg f (Text s) = Inr (Text s)"
| "each_node tg f (Comment s) = Inr (Comment s)"
| "each_node tg f (Directive s) = Inr (Directive s)"
| "each_nodes tg f [] = Inr []"
| "each_nodes tg f (n # ns) =
     (case each_node tg f n of
        Inl e \<Rightarrow> Inl e
      | Inr n' \<Rightarrow>
          (case each_nodes tg f ns of
             Inl e \<Rightarrow> Inl e
           | Inr ns' \<Rightarrow> Inr (n' # ns')))"

subsection \<open>Step 2: the attribute rules\<close>

definition attrTargets :: "(jsstring \<times> jsstring) list" where
  "attrTargets =
     [(js ''a'', js ''href''), (js ''link'', js ''href''), (js ''img'', js ''src''),
      (js ''script'', js ''src''), (js ''iframe'', js ''src''), (js ''source'', js ''src''),
      (js ''video'', js ''src''), (js ''audio'', js ''src''), (js ''form'', js ''action'')]"

text \<open>
  The skip tests of the callback, on the attribute's value: empty (\<open>!value\<close>), a
  fragment, or one of the schemes \<open>mailto:\<close>, \<open>tel:\<close>, \<open>javascript:\<close> in any letter
  case.
\<close>

definition skipped :: "jsstring \<Rightarrow> bool" where
  "skipped v \<longleftrightarrow>
     v = [] \<or> startsWith v (js ''#'') \<or>
     (let low = toLowerCaseJs v in
      startsWith low (js ''mailto:'') \<or> startsWith low (js ''tel:'') \<or>
      startsWith low (js ''javascript:''))"

text \<open>The callback of the loop over \<open>attrTargets\<close>, for the rule \<open>(tg, attr)\<close>.\<close>

definition rewrite_attr ::
  "url_parser \<Rightarrow> jsstring \<Rightarrow> jsstring \<times> jsstring \<Rightarrow> attrs \<Rightarrow> js_error + attrs" where
  "rewrite_attr new_URL baseUrl target as =
     (let tg = fst target; attr = snd target in
      case attr_get as attr of
        None \<Rightarrow> Inr as
      | Some v \<Rightarrow>
          if skipped v then Inr as
          else
            (let abs = toAbsolute new_URL v baseUrl;
                 as1 = (if tg = js ''form'' then attr_set as (js ''method'') (js ''GET'') else as)
             in case wrap abs of
                  Inl e \<Rightarrow> Inl e
                | Inr w \<Rightarrow> Inr (attr_set as1 attr w)))"

fun for_targets ::
  "url_parser \<Rightarrow> jsstring \<Rightarrow> (jsstring \<times> jsstring) list \<Rightarrow> node list \<Rightarrow> js_error + node list" where
  "for_targets new_URL baseUrl [] d = Inr d"
| "for_targets new_URL baseUrl (target # targets) d =
     (case each_nodes (fst target) (rewrite_attr new_URL baseUrl target) d of
        Inl e \<Rightarrow> Inl e
      | Inr d' \<Rightarrow> for_targets new_URL baseUrl targets d')"

definition rewrite_attrs :: "url_parser \<Rightarrow> jsstring \<Rightarrow> node list \<Rightarrow> js_error + node list" where
  "rewrite_attrs new_URL baseUrl d = for_targets new_URL baseUrl attrTargets d"

text \<open>
  What the passes do to the attributes of one element named \<open>t\<close>: the callbacks of the
  rules whose tag is \<open>t\<close>, in the order of the rules.
\<close>

fun apply_targets ::
  "url_parser \<Rightarrow> jsstring \<Rightarrow> (jsstring \<times> jsstring) list \<Rightarrow> jsstring \<Rightarrow> attrs \<Rightarrow> js_error + attrs" where
  "apply_targets new_URL baseUrl [] t as = Inr as"
| "apply_targets new_URL baseUrl (target # targets) t as =
     (case (if t = fst target then rewrite_attr new_URL baseUrl target as else Inr as) of
        Inl e \<Rightarrow> Inl e
      | Inr as' \<Rightarrow> apply_targets new_URL baseUrl targets t as')"

text \<open>
  A node is addressed by its path: the index among the roots, then the index among the
  children, and so on.
\<close>

fun node_at :: "node list \<Rightarrow> nat list \<Rightarrow> node option" where
  "node_at ns [] = None"
| "node_at ns [i] = (if i < length ns then Some (ns ! i) else None)"
| "node_at ns (i # j # p) =
     (if i < length ns then
        (case ns ! i of Element t as cs \<Rightarrow> node_at cs (j # p) | _ \<Rightarrow> None)
      else None)"

text \<open>Every attribute value in the tree is a well-formed string.\<close>

fun wellformed_node :: "node \<Rightarrow> bool"
  and wellformed_nodes :: "node list \<Rightarrow> bool"
where
  "wellformed_node (Element t as cs) \<longleftrightarrow>
     list_all (\<lambda>kv. wellformed (snd kv)) as \<and> wellformed_nodes cs"
| "wellformed_node (Text s) \<longleftrightarrow> True"
| "wellformed_node (Comment s) \<longleftrightarrow> True"
| "wellformed_node (Directive s) \<longleftrightarrow> True"
| "wellformed_nodes [] \<longleftrightarrow> True"
| "wellformed_nodes (n # ns) \<longleftrightarrow> wellformed_node n \<and> wellformed_nodes ns"

subsection \<open>Step 3: \<open>url(...)\<close> in inline style blocks\<close>

text \<open>
  \<open>String.prototype.trim\<close> removes the white space and line terminators of ECMA-262 at
  both ends.
\<close>

definition js_whitespace :: "16 word \<Rightarrow> bool" where
  "js_whitespace c \<longleftrightarrow>
     (let n = unat c in
      n \<in> {0x9, 0xA, 0xB, 0xC, 0xD, 0x20, 0xA0, 0x1680, 0x2028, 0x2029, 0x202F, 0x205F, 0x3000,
            0xFEFF} \<or>
      (0x2000 \<le> n \<and> n \<le> 0x200A))"

definition trim :: "jsstring \<Rightarrow> jsstring" where
  "trim s = rev (dropWhile js_whitespace (rev (dropWhile js_whitespace s)))"

text \<open>
  \<open>.replace(/^['"]|['"]$/g, "")\<close>: a quote at the very start is removed, and a quote
  at the very end of what is left.
\<close>

definition is_quote :: "16 word \<Rightarrow> bool" where
  "is_quote c \<longleftrightarrow> c = 0x27 \<or> c = 0x22"

definition strip_quotes :: "jsstring \<Rightarrow> jsstring" where
  "strip_quotes s =
     (let s1 = (case s of [] \<Rightarrow> [] | c # cs \<Rightarrow> if is_quote c then cs else s)
      in if s1 \<noteq> [] \<and> is_quote (last s1) then butlast s1 else s1)"

text \<open>
  The regular expression \<open>/url\(([^)]+)\)/\<close> at the start of \<open>s\<close>: the literal
  \<open>url(\<close>, one or more code units other than \<open>)\<close>, then \<open>)\<close>. The result is the
  capture and the text after the match.
\<close>

definition url_match :: "jsstring \<Rightarrow> (jsstring \<times> jsstring) option" where
  "url_match s =
     (if startsWith s (js ''url('') then
        (let t = drop 4 s;
             p1 = takeWhile (\<lambda>c. c \<noteq> cu CHR '')'') t;
             r = dropWhile (\<lambda>c. c \<noteq> cu CHR '')'') t
         in if p1 \<noteq> [] \<and> r \<noteq> [] then Some (p1, tl r) else None)
      else None)"

text \<open>The replacement callback: \<open>m\<close> is the whole match, \<open>p1\<close> the capture.\<close>

definition url_callback ::
  "url_parser \<Rightarrow> jsstring \<Rightarrow> jsstring \<Rightarrow> jsstring \<Rightarrow> js_error + jsstring" where
  "url_callback new_URL baseUrl m p1 =
     (let raw = strip_quotes (trim p1) in
      if startsWith raw (js ''data:'') then Inr m
      else
        (let abs = toAbsolute new_URL raw baseUrl in
         case wrap abs of
           Inl e \<Rightarrow> Inl e
         | Inr w \<Rightarrow> Inr (js ''url('' @ w @ js '')'')))"

lemma url_match_shorter: "url_match s = Some (p1, rest) \<Longrightarrow> length rest < length s"
proof -
  assume m: "url_match s = Some (p1, rest)"
  define r where "r = dropWhile (\<lambda>c. c \<noteq> cu CHR '')'') (drop 4 s)"
  from m have "r \<noteq> []" and "rest = tl r"
    by (auto simp add: url_match_def r_def Let_def split: if_splits)
  moreover have "length r \<le> length (drop 4 s)"
    unfolding r_def by (rule length_dropWhile_le)
  ultimately show ?thesis by (cases r) auto
qed

text \<open>
  \<open>css.replace(/url\(([^)]+)\)/g, callback)\<close>: the text is scanned from the left; a match
  is replaced by what the callback returns and the scan goes on after the match; where
  nothing matches the code unit is kept.
\<close>

function css_replace :: "url_parser \<Rightarrow> jsstring \<Rightarrow> jsstring \<Rightarrow> js_error + jsstring" where
  "css_replace new_URL baseUrl [] = Inr []"
| "css_replace new_URL baseUrl (c # cs) =
     (case url_match (c # cs) of
        Some (p1, rest) \<Rightarrow>
          (case url_callback new_URL baseUrl (js ''url('' @ p1 @ js '')'') p1 of
             Inl e \<Rightarrow> Inl e
           | Inr rep \<Rightarrow>
               (case css_replace new_URL baseUrl rest of
                  Inl e \<Rightarrow> Inl e
                | Inr r \<Rightarrow> Inr (rep @ r)))
      | None \<Rightarrow>
          (case css_replace new_URL baseUrl cs of
             Inl e \<Rightarrow> Inl e
           | Inr r \<Rightarrow> Inr (c # r)))"
  by pat_completeness auto
termination
proof (relation "measure (\<lambda>(new_URL, baseUrl, s). length s)")
  show "wf (measure (\<lambda>(new_URL, baseUrl, s). length s))" by simp
next
  fix new_URL :: url_parser and baseUrl c cs x2 p1 rest
  assume "url_match (c # cs) = Some x2" "(p1, rest) = x2"
  then show "((new_URL, baseUrl, rest), new_URL, baseUrl, c # cs)
      \<in> measure (\<lambda>(new_URL, baseUrl, s). length s)"
    using url_match_shorter [of "c # cs" p1 rest] by simp
next
  fix new_URL :: url_parser and baseUrl c cs
  show "((new_URL, baseUrl, cs), new_URL, baseUrl, c # cs)
      \<in> measure (\<lambda>(new_URL, baseUrl, s). length s)"
    by simp
qed

text \<open>
  The offsets at which the scan of \<open>css_replace\<close> arrives: the start; after a match, its
  end; where nothing matches, the next code unit. \<open>scan_reaches s k\<close>: the scan of \<open>s\<close>
  arrives at the offset \<open>k\<close>. A match of the regular expression is replaced exactly when
  it starts at such an offset.
\<close>

function scan_reaches :: "jsstring \<Rightarrow> nat \<Rightarrow> bool" where
  "scan_reaches s 0 \<longleftrightarrow> True"
| "scan_reaches [] (Suc k) \<longleftrightarrow> False"
| "scan_reaches (c # cs) (Suc k) \<longleftrightarrow>
     (case url_match (c # cs) of
        Some (p1, rest) \<Rightarrow>
          length (c # cs) - length rest \<le> Suc k \<and>
          scan_reaches rest (Suc k - (length (c # cs) - length rest))
      | None \<Rightarrow> scan_reaches cs k)"
  by pat_completeness auto
termination
proof (relation "measure (\<lambda>(s, k). length s)")
  show "wf (measure (\<lambda>(s, k). length s))" by simp
next
  fix c cs k
  show "((cs, k), c # cs, Suc k) \<in> measure (\<lambda>(s, k). length s)" by simp
next
  fix c :: "16 word" and cs k x2 p1 rest
  assume "url_match (c # cs) = Some x2" "(p1, rest) = x2"
  then show "((rest, Suc k - (length (c # cs) - length rest)), c # cs, Suc k)
      \<in> measure (\<lambda>(s, k). length s)"
    using url_match_shorter [of "c # cs" p1 rest] by simp
qed

text \<open>
  \<open>$("style").each\<close>: the children of every \<open>style\<close> element are replaced by the parse
  of the rewritten text of \<open>$(el).html()\<close>. In a parsed document a \<open>style\<close> element holds
  text only, so nothing below it is visited.
\<close>

fun style_node :: "cheerio \<Rightarrow> url_parser \<Rightarrow> jsstring \<Rightarrow> node \<Rightarrow> js_error + node"
  and style_nodes :: "cheerio \<Rightarrow> url_parser \<Rightarrow> jsstring \<Rightarrow> node list \<Rightarrow> js_error + node list"
where
  "style_node ch new_URL baseUrl (Element t as cs) =
     (if t = js ''style'' then
        (case css_replace new_URL baseUrl (render ch (Some t) cs) of
           Inl e \<Rightarrow> Inl e
         | Inr replaced \<Rightarrow> Inr (Element t as (parse_fragment ch (Some t) replaced)))
      else
        (case style_nodes ch new_URL baseUrl cs of
           Inl e \<Rightarrow> Inl e
         | Inr cs' \<Rightarrow> Inr (Element t as cs')))"
| "style_node ch new_URL baseUrl (Text s) = Inr (Text s)"
| "style_node ch new_URL baseUrl (Comment s) = Inr (Comment s)"
| "style_node ch new_URL baseUrl (Directive s) = Inr (Directive s)"
| "style_nodes ch new_URL baseUrl [] = Inr []"
| "style_nodes ch new_URL baseUrl (n # ns) =
     (case style_node ch new_URL baseUrl n of
        Inl e \<Rightarrow> Inl e
      | Inr n' \<Rightarrow>
          (case style_nodes ch new_URL baseUrl ns of
             Inl e \<Rightarrow> Inl e
           | Inr ns' \<Rightarrow> Inr (n' # ns')))"

text \<open>
  A \<open>style\<close> element of a parsed document holds text only. \<open>wellformed_styles\<close>: every
  \<open>style\<close> element of the tree holds text only, and what \<open>$(el).html()\<close> reads from it
  is a well-formed string.
\<close>

fun is_text :: "node \<Rightarrow> bool" where
  "is_text (Text s) \<longleftrightarrow> True"
| "is_text (Element t as cs) \<longleftrightarrow> False"
| "is_text (Comment s) \<longleftrightarrow> False"
| "is_text (Directive s) \<longleftrightarrow> False"

fun wellformed_style :: "cheerio \<Rightarrow> node \<Rightarrow> bool"
  and wellformed_styles :: "cheerio \<Rightarrow> node list \<Rightarrow> bool"
where
  "wellformed_style ch (Element t as cs) \<longleftrightarrow>
     (if t = js ''style'' then list_all is_text cs \<and> wellformed (render ch (Some t) cs)
      else wellformed_styles ch cs)"
| "wellformed_style ch (Text s) \<longleftrightarrow> True"
| "wellformed_style ch (Comment s) \<longleftrightarrow> True"
| "wellformed_style ch (Directive s) \<longleftrightarrow> True"
| "wellformed_styles ch [] \<longleftrightarrow> True"
| "wellformed_styles ch (n # ns) \<longleftrightarrow> wellformed_style ch n \<and> wellformed_styles ch ns"

subsection \<open>Step 4: the toolbar\<close>

definition toolbar_html :: "jsstring \<Rightarrow> jsstring" where
  \<open>toolbar_html baseUrl =
     js ''\<newline>'' @
     js ''    <div id="proxy-bar" style="position:fixed;top:0;left:0;right:0;background:#111;color:#eee;font:14px/1.4 sans-serif;padding:8px;z-index:999999;">\<newline>'' @
     js ''      <form action="/api/proxy" method="GET" style="display:flex;gap:8px;">\<newline>'' @
     js ''        <input type="text" name="url" value="'' @
     baseUrl @
     js ''" style="flex:1;padding:6px;border-radius:4px;border:1px solid #333;background:#222;color:#eee;" />\<newline>'' @
     js ''        <button type="submit" style="padding:6px 10px;border-radius:4px;background:#444;color:#eee;border:1px solid #333;">Go</button>\<newline>'' @
     js ''        <span style="margin-left:auto;opacity:0.8">Proxying: '' @
     baseUrl @
     js ''</span>\<newline>'' @
     js ''      </form>\<newline>'' @
     js ''    </div>\<newline>'' @
     js ''    <style>html,body{margin-top:40px !important}</style>\<newline>'' @
     js ''  ''\<close>

text \<open>
  \<open>$(tag)\<close>: the elements named \<open>tag\<close>, in document order.
\<close>

fun select_node :: "jsstring \<Rightarrow> node \<Rightarrow> node list"
  and select :: "jsstring \<Rightarrow> node list \<Rightarrow> node list"
where
  "select_node tg (Element t as cs) =
     (if t = tg then [Element t as cs] else []) @ select tg cs"
| "select_node tg (Text s) = []"
| "select_node tg (Comment s) = []"
| "select_node tg (Directive s) = []"
| "select tg [] = []"
| "select tg (n # ns) = select_node tg n @ select tg ns"

text \<open>
  \<open>$("body").prepend(markup)\<close>: the nodes parsed from the markup become the first
  children of every \<open>body\<close> element (each gets its own copy).
\<close>

fun prepend_node :: "node list \<Rightarrow> node \<Rightarrow> node"
  and prepend_nodes :: "node list \<Rightarrow> node list \<Rightarrow> node list"
where
  "prepend_node bar (Element t as cs) =
     Element t as ((if t = js ''body'' then bar else []) @ prepend_nodes bar cs)"
| "prepend_node bar (Text s) = Text s"
| "prepend_node bar (Comment s) = Comment s"
| "prepend_node bar (Directive s) = Directive s"
| "prepend_nodes bar [] = []"
| "prepend_nodes bar (n # ns) = prepend_node bar n # prepend_nodes bar ns"

definition toolbar :: "cheerio \<Rightarrow> jsstring \<Rightarrow> node list" where
  "toolbar ch baseUrl = parse_fragment ch None (toolbar_html baseUrl)"

text \<open>
  Paths through the later steps. The style pass replaces what is below a \<open>style\<close>
  element, so a path is followed only while no element above its end is a \<open>style\<close>
  (in a parsed document none is: a \<open>style\<close> element holds text). The injection puts
  \<open>k\<close> nodes in front of the children of a body element, so below a body the index of a
  child moves by \<open>k\<close>; \<open>off\<close> is the move at the current level.
\<close>

fun outside_style :: "node list \<Rightarrow> nat list \<Rightarrow> bool" where
  "outside_style ns [] \<longleftrightarrow> True"
| "outside_style ns [i] \<longleftrightarrow> True"
| "outside_style ns (i # j # p) \<longleftrightarrow>
     i < length ns \<and>
     (case ns ! i of
        Element t as cs \<Rightarrow> t \<noteq> js ''style'' \<and> outside_style cs (j # p)
      | _ \<Rightarrow> False)"

fun shifted :: "nat \<Rightarrow> nat \<Rightarrow> node list \<Rightarrow> nat list \<Rightarrow> nat list" where
  "shifted k off ns [] = []"
| "shifted k off ns (i # p) =
     (off + i) #
     (if i < length ns then
        (case ns ! i of
           Element t as cs \<Rightarrow> shifted k (if t = js ''body'' then k else 0) cs p
         | _ \<Rightarrow> p)
      else p)"

subsection \<open>The rewriter\<close>

definition rewrite_tree ::
  "cheerio \<Rightarrow> url_parser \<Rightarrow> node list \<Rightarrow> jsstring \<Rightarrow> js_error + node list" where
  "rewrite_tree ch new_URL d baseUrl =
     (case rewrite_attrs new_URL baseUrl d of
        Inl e \<Rightarrow> Inl e
      | Inr d1 \<Rightarrow>
          (case style_nodes ch new_URL baseUrl d1 of
             Inl e \<Rightarrow> Inl e
           | Inr d2 \<Rightarrow> Inr (prepend_nodes (toolbar ch baseUrl) d2)))"

definition rewriteHtml ::
  "cheerio \<Rightarrow> url_parser \<Rightarrow> jsstring \<Rightarrow> jsstring \<Rightarrow> js_error + jsstring" where
  "rewriteHtml ch new_URL html baseUrl =
     (case rewrite_tree ch new_URL (load ch html) baseUrl of
        Inl e \<Rightarrow> Inl e
      | Inr d \<Rightarrow> Inr (render ch None d))"

section \<open>Header Filter: \<open>filterResponseHeaders\<close>\<close>

text \<open>
  A \<open>Headers\<close> object is modelled by the sequence of (name, value) pairs its \<open>forEach\<close>
  visits. The result \<open>out\<close> is a plain JavaScript object used as a dictionary: an
  association list in insertion order, where \<open>out[key] = value\<close> overwrites the entry of an
  existing key in place and appends a new key otherwise.

  A plain object inherits the accessor property \<open>__proto__\<close> from \<open>Object.prototype\<close>.
  The assignment \<open>out["__proto__"] = value\<close> therefore calls that setter instead of
  creating an own property, and the setter ignores a value that is neither an object nor
  null (ECMA-262, set Object.prototype.__proto__). With a string value the assignment leaves
  \<open>out\<close> as it is. Every other key used here creates or overwrites an own property.
  (\<open>Object.keys\<close> lists integer-like keys first; nothing below depends on that order.)
\<close>

type_synonym headers = "(string \<times> string) list"

definition obj_set :: "headers \<Rightarrow> string \<Rightarrow> string \<Rightarrow> headers" where
  "obj_set out key v = (if key = ''__proto__'' then out else AList.update key v out)"

definition hopByHop :: "string list" where
  "hopByHop = [''connection'', ''keep-alive'', ''proxy-authenticate'', ''proxy-authorization'',
               ''te'', ''trailer'', ''transfer-encoding'', ''upgrade'']"

text \<open>The body of the \<open>forEach\<close> callback: one header, the object built so far.\<close>

definition filter_step :: "string \<times> string \<Rightarrow> headers \<Rightarrow> headers" where
  "filter_step kv out =
     (let key = fst kv; v = snd kv; k = toLowerCase key in
      if k \<in> set hopByHop then out
      else if k = ''content-security-policy'' \<or> k = ''x-frame-options'' then out
      else if k = ''set-cookie'' then out
      else obj_set out key v)"

definition filter_loop :: "headers \<Rightarrow> headers" where
  "filter_loop hs = fold filter_step hs []"

definition filterResponseHeaders :: "headers \<Rightarrow> headers" where
  "filterResponseHeaders hs =
     (let out = filter_loop hs in
      if \<not> list_ex (\<lambda>k. toLowerCase k = ''content-type'') (map fst out)
      then obj_set out ''Content-Type'' ''text/plain; charset=utf-8''
      else out)"

text \<open>The header names the filter drops on purpose, compared in lower case.\<close>

definition dropped :: "string \<Rightarrow> bool" where
  "dropped key \<longleftrightarrow>
     toLowerCase key \<in> set hopByHop \<union> {''content-security-policy'', ''x-frame-options'', ''set-cookie''}"

section \<open>Relay Handler: \<open>handler\<close>\<close>

text \<open>
  The request as the handler reads it: \<open>req.query.url\<close> (cast to a string by the code)
  and three headers, each a string or undefined. The world outside is a parameter: \<open>new URL(target)\<close> (its protocol and
  its serialization, or \<open>None\<close> where it throws), the resolver of the rewriter, \<open>fetch\<close>
  (an error where it rejects), \<open>upstream.text()\<close> and cheerio. The upstream response
  comes with its body read.
\<close>

record request =
  query_url :: "jsstring option"
  user_agent :: "string option"
  accept :: "string option"
  accept_language :: "string option"

record url =
  protocol :: string
  href :: string

record 'b upstream =
  up_status :: nat
  up_headers :: headers
  up_body :: 'b

record 'b world =
  parse_URL :: "jsstring \<Rightarrow> url option"
  resolve_URL :: url_parser
  fetch :: "string \<Rightarrow> headers \<Rightarrow> js_error + 'b upstream"
  text_of :: "'b \<Rightarrow> jsstring"
  lib :: cheerio

text \<open>
  The response object. Node keeps the headers set so far under their lower-cased names,
  each with the name as it was written and the value: \<open>res.setHeader\<close> replaces the entry
  of a name that differs only in letter case. \<open>send\<close> is modelled as storing the body.
\<close>

datatype 'b payload = Str jsstring | Buf 'b

record 'b response =
  res_headers :: "(string \<times> string \<times> string) list"
  res_status :: nat
  res_body :: "'b payload option"

definition new_response :: "'b response" where
  "new_response = \<lparr>res_headers = [], res_status = 200, res_body = None\<rparr>"

definition setHeader :: "string \<Rightarrow> string \<Rightarrow> 'b response \<Rightarrow> 'b response" where
  "setHeader name v res =
     res\<lparr>res_headers := AList.update (toLowerCase name) (name, v) (res_headers res)\<rparr>"

definition getHeader :: "'b response \<Rightarrow> string \<Rightarrow> string option" where
  "getHeader res name = map_option snd (map_of (res_headers res) (toLowerCase name))"

definition send :: "nat \<Rightarrow> 'b payload \<Rightarrow> 'b response \<Rightarrow> 'b response" where
  "send code body res = res\<lparr>res_status := code, res_body := Some body\<rparr>"

text \<open>\<open>Object.entries(headers).forEach(([k, v]) => res.setHeader(k, v))\<close>.\<close>

definition set_all :: "headers \<Rightarrow> 'b response \<Rightarrow> 'b response" where
  "set_all hs res = fold (\<lambda>kv. setHeader (fst kv) (snd kv)) hs res"

text \<open>\<open>headers.get(name)\<close>: the value of the header of that name, in any letter case.\<close>

definition headers_get :: "headers \<Rightarrow> string \<Rightarrow> string option" where
  "headers_get hs name = map_of (map (\<lambda>kv. (toLowerCase (fst kv), snd kv)) hs) (toLowerCase name)"

text \<open>\<open>x || fallback\<close> for a string that may be undefined or empty.\<close>

definition or_else :: "'a list option \<Rightarrow> 'a list \<Rightarrow> 'a list" where
  "or_else x fallback = (case x of None \<Rightarrow> fallback | Some s \<Rightarrow> if s = [] then fallback else s)"

text \<open>\<open>err?.message || String(err)\<close> for an error object.\<close>

definition error_text :: "js_error \<Rightarrow> string" where
  "error_text e =
     (if err_message e \<noteq> [] then err_message e else err_name e)"

definition bad_gateway :: "js_error \<Rightarrow> 'b response" where
  "bad_gateway e = send 502 (Str (js ''Upstream fetch failed: '' @ js (error_text e))) new_response"

definition handler :: "'b world \<Rightarrow> request \<Rightarrow> 'b response" where
  "handler w req =
     (let target = or_else (query_url req) [] in
      if target = [] then send 400 (Str (js ''Missing ?url= parameter'')) new_response
      else
        (case parse_URL w target of
           None \<Rightarrow> send 400 (Str (js ''Invalid URL'')) new_response
         | Some u \<Rightarrow>
             if protocol u \<notin> set [''http:'', ''https:'']
             then send 400 (Str (js ''Only http/https supported'')) new_response
             else
               (case fetch w (href u)
                       [(''user-agent'',
                           or_else (user_agent req)
                             ''Mozilla/5.0 (Proxy) AppleWebKit/537.36 (KHTML, like Gecko) Chrome Safari''),
                        (''accept'', or_else (accept req) ''*/*''),
                        (''accept-language'', or_else (accept_language req) ''en-US,en;q=0.9'')] of
                  Inl e \<Rightarrow> bad_gateway e
                | Inr upstream \<Rightarrow>
                    (let status = up_status upstream;
                         headers = filterResponseHeaders (up_headers upstream);
                         contentType = or_else (headers_get (up_headers upstream) ''content-type'') [];
                         isHtml = str_includes contentType ''text/html''
                     in if \<not> isHtml then
                          send status (Buf (up_body upstream))
                            (set_all headers
                               (setHeader ''Content-Type''
                                  (or_else (Some contentType) ''application/octet-stream'')
                                  new_response))
                        else
                          (case rewriteHtml (lib w) (resolve_URL w) (text_of w (up_body upstream))
                                  (js (href u)) of
                             Inl e \<Rightarrow> bad_gateway e
                           | Inr rewritten \<Rightarrow>
                               send status (Str rewritten)
                                 (set_all headers
                                    (setHeader ''Content-Type'' ''text/html; charset=utf-8''
                                       new_response)))))))"

section \<open>A small world for the examples\<close>

text \<open>
  To run the rewriter and the handler on concrete inputs the parameters need values.

  \<open>example_URL\<close> holds the values of \<open>new URL(url, base).toString()\<close> at the inputs of
  the examples. Two references are not URLs, and the constructor throws on them against any
  base: \<open>http://\<close> has an empty host, and in \<open>http://[\<close> followed by an unpaired
  surrogate the host opens an address that is not closed. No other input is used.
\<close>

definition example_URL :: url_parser where
  "example_URL url base =
     map_of
       [((js ''/x'', js ''https://example.com/page''), ''https://example.com/x''),
        ((js ''/submit'', js ''https://example.com/page''), ''https://example.com/submit''),
        ((js ''/img.png'', js ''https://example.com/''), ''https://example.com/img.png'')]
       (url, base)"

text \<open>
  \<open>example_cheerio\<close> holds what cheerio does at the inputs of the examples.

  \<open>serialize\<close> is the serialization of a tree as \<open>$.html()\<close> writes it: an element
  as its start tag with the attributes, its children and its end tag; no children and no
  end tag for a void element; in an attribute value \<open>&\<close>, the double quote and the
  no-break space escaped; text as it is inside a raw text element such as \<open>style\<close> and
  with \<open>&\<close>, \<open><\<close>, \<open>>\<close> and the no-break space escaped elsewhere.

  \<open>example_markup\<close> is the markup of lines 68 to 77 for a base URL, and
  \<open>example_toolbar\<close> the five nodes the HTML parser reads from it when the base URL
  holds no markup character: the \<open>div\<close> with the form, the \<open>style\<close> element, and the
  white space before, between and after them.
\<close>

definition void_elements :: "jsstring list" where
  "void_elements =
     map js [''area'', ''base'', ''basefont'', ''bgsound'', ''br'', ''col'', ''embed'', ''frame'',
       ''hr'', ''img'', ''input'', ''keygen'', ''link'', ''meta'', ''param'', ''source'', ''track'',
       ''wbr'']"

definition raw_text_elements :: "jsstring list" where
  "raw_text_elements =
     map js [''style'', ''script'', ''xmp'', ''iframe'', ''noembed'', ''noframes'', ''plaintext'',
       ''noscript'']"

definition escape_text :: "jsstring \<Rightarrow> jsstring" where
  "escape_text s =
     concat (map (\<lambda>c. if c = cu CHR ''&'' then js ''&amp;''
                      else if c = 0xA0 then js ''&nbsp;''
                      else if c = cu CHR ''<'' then js ''&lt;''
                      else if c = cu CHR ''>'' then js ''&gt;''
                      else [c]) s)"

definition escape_attr :: "jsstring \<Rightarrow> jsstring" where
  "escape_attr s =
     concat (map (\<lambda>c. if c = cu CHR ''&'' then js ''&amp;''
                      else if c = 0xA0 then js ''&nbsp;''
                      else if c = 0x22 then js ''&quot;''
                      else [c]) s)"

fun serialize_node :: "bool \<Rightarrow> node \<Rightarrow> jsstring"
  and serialize :: "bool \<Rightarrow> node list \<Rightarrow> jsstring"
where
  "serialize_node raw (Element t as cs) =
     js ''<'' @ t @
     concat (map (\<lambda>kv. js '' '' @ fst kv @ [cu CHR ''='', 0x22] @ escape_attr (snd kv) @ [0x22]) as) @
     js ''>'' @
     (if t \<in> set void_elements then []
      else serialize (t \<in> set raw_text_elements) cs @ js ''</'' @ t @ js ''>'')"
| "serialize_node raw (Text s) = (if raw then s else escape_text s)"
| "serialize_node raw (Comment s) = js ''<!--'' @ s @ js ''-->''"
| "serialize_node raw (Directive s) = js ''<'' @ s @ js ''>''"
| "serialize raw [] = []"
| "serialize raw (n # ns) = serialize_node raw n @ serialize raw ns"

definition example_markup :: "jsstring \<Rightarrow> jsstring" where
  \<open>example_markup b =
     js ''\<newline>'' @
     js ''    <div id="proxy-bar" style="position:fixed;top:0;left:0;right:0;background:#111;color:#eee;font:14px/1.4 sans-serif;padding:8px;z-index:999999;">\<newline>'' @
     js ''      <form action="/api/proxy" method="GET" style="display:flex;gap:8px;">\<newline>'' @
     js ''        <input type="text" name="url" value="'' @
     b @
     js ''" style="flex:1;padding:6px;border-radius:4px;border:1px solid #333;background:#222;color:#eee;" />\<newline>'' @
     js ''        <button type="submit" style="padding:6px 10px;border-radius:4px;background:#444;color:#eee;border:1px solid #333;">Go</button>\<newline>'' @
     js ''        <span style="margin-left:auto;opacity:0.8">Proxying: '' @
     b @
     js ''</span>\<newline>'' @
     js ''      </form>\<newline>'' @
     js ''    </div>\<newline>'' @
     js ''    <style>html,body{margin-top:40px !important}</style>\<newline>'' @
     js ''  ''\<close>

definition example_toolbar :: "jsstring \<Rightarrow> node list" where
  "example_toolbar b =
     [Text (js ''\<newline>    ''),
      Element (js ''div'')
        [(js ''id'', js ''proxy-bar''),
         (js ''style'', js ''position:fixed;top:0;left:0;right:0;background:#111;color:#eee;font:14px/1.4 sans-serif;padding:8px;z-index:999999;'')]
        [Text (js ''\<newline>      ''),
         Element (js ''form'')
           [(js ''action'', js ''/api/proxy''), (js ''method'', js ''GET''),
            (js ''style'', js ''display:flex;gap:8px;'')]
           [Text (js ''\<newline>        ''),
            Element (js ''input'')
              [(js ''type'', js ''text''), (js ''name'', js ''url''), (js ''value'', b),
               (js ''style'', js ''flex:1;padding:6px;border-radius:4px;border:1px solid #333;background:#222;color:#eee;'')]
              [],
            Text (js ''\<newline>        ''),
            Element (js ''button'')
              [(js ''type'', js ''submit''),
               (js ''style'', js ''padding:6px 10px;border-radius:4px;background:#444;color:#eee;border:1px solid #333;'')]
              [Text (js ''Go'')],
            Text (js ''\<newline>        ''),
            Element (js ''span'') [(js ''style'', js ''margin-left:auto;opacity:0.8'')]
              [Text (js ''Proxying: '' @ b)],
            Text (js ''\<newline>      '')],
         Text (js ''\<newline>    '')],
      Text (js ''\<newline>    ''),
      Element (js ''style'') [] [Text (js ''html,body{margin-top:40px !important}'')],
      Text (js ''\<newline>  '')]"

text \<open>
  \<open>load\<close>: the page \<open>hello\<close> has no markup; the HTML parser builds the \<open>html\<close>,
  \<open>head\<close> and \<open>body\<close> elements around its text. \<open>parse_fragment\<close>: what is set with
  \<open>.html(str)\<close> on a \<open>style\<close> element is raw text, one text node unless it is empty; the
  toolbar markup handed to \<open>.prepend(str)\<close> is parsed into \<open>example_toolbar\<close>, for the
  two base URLs of the examples. \<open>render\<close>: the serialization, the text below a raw text
  element being written as it is. No other input is used.

  \<open>example_world\<close> serves one page, \<open>https://example.com/page\<close>, whose origin answers
  200 with the header \<open>Content-Type: text/html; charset=iso-8859-1\<close> and the body
  \<open>hello\<close>.
\<close>

definition example_cheerio :: cheerio where
  "example_cheerio =
     \<lparr>load = (\<lambda>html.
        if html = js ''hello'' then
          [Element (js ''html'') []
             [Element (js ''head'') [] [], Element (js ''body'') [] [Text (js ''hello'')]]]
        else []),
      parse_fragment = (\<lambda>ctx markup.
        case ctx of
          Some t \<Rightarrow> if t = js ''style'' \<and> markup \<noteq> [] then [Text markup] else []
        | None \<Rightarrow>
            if markup = example_markup (js ''https://example.com/page'')
            then example_toolbar (js ''https://example.com/page'')
            else if markup = example_markup (js ''https://example.com/'')
            then example_toolbar (js ''https://example.com/'')
            else []),
      render = (\<lambda>ctx ns.
        serialize (case ctx of None \<Rightarrow> False | Some t \<Rightarrow> t \<in> set raw_text_elements) ns)\<rparr>"

definition example_upstream :: "string upstream" where
  "example_upstream =
     \<lparr>up_status = 200,
      up_headers = [(''content-type'', ''text/html; charset=iso-8859-1'')],
      up_body = ''hello''\<rparr>"

definition example_world :: "string world" where
  "example_world =
     \<lparr>parse_URL = (\<lambda>target. if target = js ''https://example.com/page''
                              then Some \<lparr>protocol = ''https:'', href = ''https://example.com/page''\<rparr>
                              else None),
      resolve_URL = example_URL,
      fetch = (\<lambda>u hs. if u = ''https://example.com/page'' then Inr example_upstream
                       else Inl (JsError ''TypeError'' ''fetch failed'')),
      text_of = js,
      lib = example_cheerio\<rparr>"

definition example_request :: request where
  "example_request =
     \<lparr>query_url = Some (js ''https://example.com/page''), user_agent = None, accept = None,
      accept_language = None\<rparr>"

section \<open>Properties of the Header Filter\<close>

lemma map_of_obj_set:
  "map_of (obj_set out k v) = (if k = ''__proto__'' then map_of out else (map_of out)(k \<mapsto> v))"
  by (simp add: obj_set_def update_conv')

lemma map_of_filter_step:
  "map_of (filter_step (key, v) out) =
     (if dropped key \<or> key = ''__proto__'' then map_of out else (map_of out)(key \<mapsto> v))"
  by (simp add: filter_step_def dropped_def Let_def map_of_obj_set)

lemma map_of_fold_filter_step:
  "map_of (fold filter_step hs out) k =
     (if dropped k \<or> k = ''__proto__'' then map_of out k
      else case map_of (rev hs) k of Some v \<Rightarrow> Some v | None \<Rightarrow> map_of out k)"
proof (induction hs arbitrary: out)
  case Nil
  show ?case by simp
next
  case (Cons kv hs)
  obtain key v where kv: "kv = (key, v)" by (cases kv)
  show ?case
    by (simp add: kv Cons.IH map_of_filter_step map_add_def split: option.splits)
qed

lemma map_of_filter_loop:
  "map_of (filter_loop hs) k =
     (if dropped k \<or> k = ''__proto__'' then None else map_of (rev hs) k)"
  by (simp add: filter_loop_def map_of_fold_filter_step split: option.splits)

lemma not_dropped_Content_Type: "\<not> dropped ''Content-Type''"
  by (simp add: dropped_def toLowerCase_def lower_char_def hopByHop_def)

lemma lower_Content_Type: "toLowerCase ''Content-Type'' = ''content-type''"
  by (simp add: toLowerCase_def lower_char_def)

lemma keys_filter_loop:
  "k \<in> fst ` set (filter_loop hs) \<longleftrightarrow> k \<in> fst ` set hs \<and> \<not> dropped k \<and> k \<noteq> ''__proto__''"
proof -
  have "k \<in> fst ` set (filter_loop hs) \<longleftrightarrow> map_of (filter_loop hs) k \<noteq> None"
    by (simp add: map_of_eq_None_iff)
  also have "\<dots> \<longleftrightarrow> k \<in> fst ` set hs \<and> \<not> dropped k \<and> k \<noteq> ''__proto__''"
    using map_of_eq_None_iff [of "rev hs" k]
    by (auto simp add: map_of_filter_loop)
  finally show ?thesis .
qed

lemma ct_not_dropped:
  "toLowerCase k = ''content-type'' \<Longrightarrow> \<not> dropped k \<and> k \<noteq> ''__proto__''"
  by (auto simp add: dropped_def hopByHop_def toLowerCase_def lower_char_def)

lemma has_ct_filter_loop:
  "list_ex (\<lambda>k. toLowerCase k = ''content-type'') (map fst (filter_loop hs)) \<longleftrightarrow>
     (\<exists>k\<in>fst ` set hs. toLowerCase k = ''content-type'')"
proof -
  have "list_ex (\<lambda>k. toLowerCase k = ''content-type'') (map fst (filter_loop hs)) \<longleftrightarrow>
        (\<exists>k\<in>fst ` set (filter_loop hs). toLowerCase k = ''content-type'')"
    by (simp add: list_ex_iff)
  also have "\<dots> \<longleftrightarrow> (\<exists>k\<in>fst ` set hs. toLowerCase k = ''content-type'')"
    using ct_not_dropped keys_filter_loop by blast
  finally show ?thesis .
qed

lemma set_update_subset: "set (AList.update k v al) \<subseteq> insert (k, v) (set al)"
  by (induction al) auto

lemma set_filter_step: "set (filter_step kv out) \<subseteq> insert kv (set out)"
  using set_update_subset [of "fst kv" "snd kv" out]
  by (auto simp add: filter_step_def obj_set_def Let_def)

lemma set_fold_filter_step: "set (fold filter_step hs out) \<subseteq> set out \<union> set hs"
proof (induction hs arbitrary: out)
  case Nil
  show ?case by simp
next
  case (Cons kv hs)
  show ?case using Cons.IH [of "filter_step kv out"] set_filter_step [of kv out] by auto
qed

lemma set_filter_loop: "set (filter_loop hs) \<subseteq> set hs"
  using set_fold_filter_step [of hs "[]"] by (simp add: filter_loop_def)

lemma update_fresh: "k \<notin> fst ` set al \<Longrightarrow> AList.update k v al = al @ [(k, v)]"
  by (induction al) auto

lemma filterResponseHeaders_lookup:
  "map_of (filterResponseHeaders hs) k =
     (if dropped k \<or> k = ''__proto__'' then None
      else case map_of (rev hs) k of
             Some v \<Rightarrow> Some v
           | None \<Rightarrow> if k = ''Content-Type'' \<and> (\<forall>k'\<in>fst ` set hs. toLowerCase k' \<noteq> ''content-type'')
                     then Some ''text/plain; charset=utf-8'' else None)"
proof -
  have "map_of (rev hs) ''Content-Type'' = None"
    if "\<forall>k'\<in>fst ` set hs. toLowerCase k' \<noteq> ''content-type''"
    using that lower_Content_Type map_of_eq_None_iff [of "rev hs" "''Content-Type''"] by auto
  then show ?thesis
    using not_dropped_Content_Type
    by (auto simp add: filterResponseHeaders_def Let_def has_ct_filter_loop map_of_obj_set
        map_of_filter_loop split: option.splits)
qed

text \<open>
  The lemma \<open>filterResponseHeaders_lookup\<close> describes the whole output: a name in the drop
  list is absent, every other name but \<open>__proto__\<close> carries the value of its last entry
  in the input, and \<open>Content-Type\<close> is synthesized when no input name matches it.
\<close>

text \<open>
  Claim C1: the Header Filter omits every header whose name matches, in any letter case, a
  hop-by-hop name or one of content-security-policy, x-frame-options, set-cookie, and maps
  every other input header name to its value unchanged.

  The first half holds (\<open>filterResponseHeaders_lookup\<close>). The second half fails for the
  header name \<open>__proto__\<close>, which is a valid HTTP token and is not in the drop list: the
  assignment \<open>out[key] = value\<close> does not store it, so the header never reaches the output.
\<close>

theorem filterResponseHeaders_drops_proto:
  "\<not> dropped ''__proto__'' \<and>
   filterResponseHeaders [(''__proto__'', ''1'')] = [(''Content-Type'', ''text/plain; charset=utf-8'')]"
  by (simp add: dropped_def hopByHop_def toLowerCase_def lower_char_def filterResponseHeaders_def
      filter_loop_def filter_step_def obj_set_def Let_def)

text \<open>
  Claim C3: when no surviving header name matches content-type in any letter case, the output
  holds exactly one entry for it, the synthesized
  \<open>Content-Type: text/plain; charset=utf-8\<close>; when a content-type survives, nothing is
  synthesized: the output is the object built by the loop, and each of its entries is an
  entry of the input.
\<close>

theorem filterResponseHeaders_content_type:
  "((\<forall>k\<in>fst ` set hs. \<not> dropped k \<longrightarrow> toLowerCase k \<noteq> ''content-type'') \<longrightarrow>
      filter (\<lambda>kv. toLowerCase (fst kv) = ''content-type'') (filterResponseHeaders hs) =
        [(''Content-Type'', ''text/plain; charset=utf-8'')]) \<and>
   ((\<exists>k\<in>fst ` set hs. \<not> dropped k \<and> toLowerCase k = ''content-type'') \<longrightarrow>
      filterResponseHeaders hs = filter_loop hs \<and> set (filterResponseHeaders hs) \<subseteq> set hs)"
proof (intro conjI impI)
  assume no: "\<forall>k\<in>fst ` set hs. \<not> dropped k \<longrightarrow> toLowerCase k \<noteq> ''content-type''"
  then have no': "\<forall>k\<in>fst ` set hs. toLowerCase k \<noteq> ''content-type''"
    using ct_not_dropped by blast
  then have none: "\<forall>k\<in>fst ` set (filter_loop hs). toLowerCase k \<noteq> ''content-type''"
    using keys_filter_loop by blast
  then have fresh: "''Content-Type'' \<notin> fst ` set (filter_loop hs)"
    using lower_Content_Type by blast
  have out: "filterResponseHeaders hs =
      filter_loop hs @ [(''Content-Type'', ''text/plain; charset=utf-8'')]"
    using no' by (simp add: filterResponseHeaders_def Let_def has_ct_filter_loop obj_set_def
        update_fresh [OF fresh])
  have "filter (\<lambda>kv. toLowerCase (fst kv) = ''content-type'') (filter_loop hs) = []"
    using none by (auto simp add: filter_empty_conv)
  then show "filter (\<lambda>kv. toLowerCase (fst kv) = ''content-type'') (filterResponseHeaders hs) =
        [(''Content-Type'', ''text/plain; charset=utf-8'')]"
    by (simp add: out lower_Content_Type)
next
  assume "\<exists>k\<in>fst ` set hs. \<not> dropped k \<and> toLowerCase k = ''content-type''"
  then have ex: "\<exists>k\<in>fst ` set hs. toLowerCase k = ''content-type''" by blast
  then show "filterResponseHeaders hs = filter_loop hs"
    by (simp add: filterResponseHeaders_def Let_def has_ct_filter_loop)
  then show "set (filterResponseHeaders hs) \<subseteq> set hs"
    using set_filter_loop by simp
qed

theorem filterResponseHeaders_content_type_witness:
  "toLowerCase ''server'' \<noteq> ''content-type'' \<and>
   filter (\<lambda>kv. toLowerCase (fst kv) = ''content-type'')
     (filterResponseHeaders [(''server'', ''nginx'')]) =
       [(''Content-Type'', ''text/plain; charset=utf-8'')] \<and>
   \<not> dropped ''content-type'' \<and> toLowerCase ''content-type'' = ''content-type'' \<and>
   filterResponseHeaders [(''content-type'', ''image/png'')] = [(''content-type'', ''image/png'')]"
proof -
  have a: "toLowerCase ''server'' \<noteq> ''content-type''"
    by (simp add: toLowerCase_def lower_char_def)
  have b: "\<not> dropped ''content-type'' \<and> toLowerCase ''content-type'' = ''content-type''"
    by (simp add: toLowerCase_def lower_char_def dropped_def hopByHop_def)
  have c: "filter_loop [(''content-type'', ''image/png'')] = [(''content-type'', ''image/png'')]"
    by (simp add: toLowerCase_def lower_char_def hopByHop_def filter_loop_def filter_step_def
        obj_set_def Let_def)
  show ?thesis
    using a b c filterResponseHeaders_content_type [of "[(''server'', ''nginx'')]"]
      filterResponseHeaders_content_type [of "[(''content-type'', ''image/png'')]"]
    by simp
qed

section \<open>Properties of the Link Wrapper\<close>

lemma of_char_less_256: "(of_char c :: nat) < 256"
  by (metis of_char_mod_256 mod_less_divisor zero_less_numeral)

lemma unat_cu: "unat (cu c) = of_char c"
proof -
  have "(of_char c :: nat) < 65536"
    by (rule order_less_trans [OF of_char_less_256]) simp
  then show ?thesis by (simp add: cu_def unat_of_nat take_bit_eq_mod)
qed

lemma nat_less_16_cases:
  "n < 16 \<Longrightarrow> n \<in> {0, 1, 2, 3, 4, 5, 6, 7, 8, 9, 10, 11, 12, 13, 14, 15::nat}"
  by (simp only: insert_iff empty_iff) arith

lemma hex_roundtrip: "n < 16 \<Longrightarrow> hex_value (hex_digit n) = Some n"
  using nat_less_16_cases [of n]
  by (auto simp add: hex_digit_def js_def cu_def hex_value_def)

lemma hex_digit_safe: "n < 16 \<Longrightarrow> safe_unit (hex_digit n) \<and> hex_digit n \<noteq> cu CHR ''%''"
  using nat_less_16_cases [of n]
  by (auto simp add: hex_digit_def js_def cu_def safe_unit_def)

lemma unreserved_safe: "uriUnescaped c \<Longrightarrow> safe_unit c \<and> c \<noteq> cu CHR ''%''"
  by (auto simp add: uriUnescaped_def safe_unit_def cu_def Let_def)

lemma unescape_pct_octet:
  "b < 256 \<Longrightarrow> unescape (pct_octet b @ r) = map_option ((#) (Oct b)) (unescape r)"
proof -
  assume b: "b < 256"
  then have d: "b div 16 < 16" and m: "b mod 16 < 16" by auto
  show ?thesis
    using hex_roundtrip [OF d] hex_roundtrip [OF m]
    by (simp add: pct_octet_def)
qed

lemma unescape_pct:
  "\<forall>b\<in>set bs. b < 256 \<Longrightarrow> unescape (pct bs @ r) = map_option ((@) (map Oct bs)) (unescape r)"
proof (induction bs)
  case Nil
  show ?case by (simp add: pct_def option.map_ident)
next
  case (Cons b bs)
  then have "unescape (pct bs @ r) = map_option ((@) (map Oct bs)) (unescape r)" by simp
  moreover have "pct (b # bs) @ r = pct_octet b @ (pct bs @ r)" by (simp add: pct_def)
  ultimately show ?case
    using Cons.prems by (simp add: unescape_pct_octet option.map_comp comp_def)
qed

lemma utf8_encode_octets: "v \<le> 0x10FFFF \<Longrightarrow> \<forall>b\<in>set (utf8_encode v). b < 256"
  by (auto simp add: utf8_encode_def)

lemma append_single: "(@) [x] = (#) x"
  by (rule ext) simp

lemma utf8_units_1:
  "v < 0x80 \<Longrightarrow> utf8_units (map Oct (utf8_encode v) @ ts) =
     map_option ((@) (utf16_encode v)) (utf8_units ts)"
  by (simp add: utf8_encode_def utf16_encode_def append_single)

lemma split_64: "(v::nat) div 64 * 64 + v mod 64 = v"
  by simp

lemma split_4096: "(v::nat) div 4096 * 4096 + v div 64 mod 64 * 64 + v mod 64 = v"
proof -
  have r: "a * 4096 + b * 64 = (a * 64 + b) * 64" for a b :: nat
    by (simp add: add_mult_distrib)
  have "v div 4096 = v div 64 div 64" by (simp add: div_mult2_eq)
  then have "v div 4096 * 4096 + v div 64 mod 64 * 64 = v div 64 * 64"
    using r [of "v div 64 div 64" "v div 64 mod 64"] split_64 [of "v div 64"] by (simp only:)
  then show ?thesis by (simp only: split_64)
qed

lemma split_262144:
  "(v::nat) div 262144 * 262144 + v div 4096 mod 64 * 4096 + v div 64 mod 64 * 64 + v mod 64 = v"
proof -
  have r: "a * 262144 + b * 4096 = (a * 64 + b) * 4096" for a b :: nat
    by (simp add: add_mult_distrib)
  have "v div 262144 = v div 4096 div 64" by (simp add: div_mult2_eq)
  then have "v div 262144 * 262144 + v div 4096 mod 64 * 4096 = v div 4096 * 4096"
    using r [of "v div 4096 div 64" "v div 4096 mod 64"] split_64 [of "v div 4096"]
    by (simp only:)
  then show ?thesis by (simp only: split_4096)
qed

lemma utf8_units_2:
  assumes "0x80 \<le> v" "v < 0x800"
  shows "utf8_units (map Oct (utf8_encode v) @ ts) =
     map_option ((@) (utf16_encode v)) (utf8_units ts)"
proof -
  have enc: "utf8_encode v = [0xC0 + v div 64, 0x80 + v mod 64]"
    using assms by (simp add: utf8_encode_def)
  have a: "0xC0 + v div 64 < 0xE0" using assms by simp
  have b: "continuation (0x80 + v mod 64)" by (simp add: continuation_def)
  have c: "(0xC0 + v div 64 - 0xC0) * 64 + (0x80 + v mod 64 - 0x80) = v" by simp
  show ?thesis
    unfolding enc using a b assms(1) by simp
qed

lemma utf8_units_3:
  assumes "0x800 \<le> v" "v < 0x10000" "scalar_value v"
  shows "utf8_units (map Oct (utf8_encode v) @ ts) =
     map_option ((@) (utf16_encode v)) (utf8_units ts)"
proof -
  have enc: "utf8_encode v = [0xE0 + v div 4096, 0x80 + v div 64 mod 64, 0x80 + v mod 64]"
    using assms by (simp add: utf8_encode_def)
  have a: "0xE0 + v div 4096 < 0xF0" using assms by simp
  have b: "continuation (0x80 + v div 64 mod 64)" "continuation (0x80 + v mod 64)"
    by (simp_all add: continuation_def)
  have c: "(0xE0 + v div 4096 - 0xE0) * 4096 + (0x80 + v div 64 mod 64 - 0x80) * 64 +
      (0x80 + v mod 64 - 0x80) = v"
    using split_4096 [of v] by simp
  have d: "\<not> (0xD800 \<le> v \<and> v \<le> 0xDFFF)" using assms by (auto simp add: scalar_value_def)
  show ?thesis
    unfolding enc using a b d assms(1) by (simp add: split_4096)
qed

lemma utf8_units_4:
  assumes "0x10000 \<le> v" "v \<le> 0x10FFFF"
  shows "utf8_units (map Oct (utf8_encode v) @ ts) =
     map_option ((@) (utf16_encode v)) (utf8_units ts)"
proof -
  have enc: "utf8_encode v = [0xF0 + v div 262144, 0x80 + v div 4096 mod 64,
      0x80 + v div 64 mod 64, 0x80 + v mod 64]"
    using assms by (simp add: utf8_encode_def)
  have a: "0xF0 + v div 262144 < 0xF8" using assms by simp
  have b: "continuation (0x80 + v div 4096 mod 64)" "continuation (0x80 + v div 64 mod 64)"
    "continuation (0x80 + v mod 64)"
    by (simp_all add: continuation_def)
  have c: "(0xF0 + v div 262144 - 0xF0) * 262144 + (0x80 + v div 4096 mod 64 - 0x80) * 4096 +
      (0x80 + v div 64 mod 64 - 0x80) * 64 + (0x80 + v mod 64 - 0x80) = v"
    using split_262144 [of v] by simp
  show ?thesis
    unfolding enc using a b assms by (simp add: split_262144)
qed

lemma utf8_units_encode:
  "scalar_value v \<Longrightarrow> utf8_units (map Oct (utf8_encode v) @ ts) =
     map_option ((@) (utf16_encode v)) (utf8_units ts)"
  using utf8_units_1 [of v ts] utf8_units_2 [of v ts] utf8_units_3 [of v ts] utf8_units_4 [of v ts]
  by (cases "v < 0x80"; cases "v < 0x800"; cases "v < 0x10000") (auto simp add: scalar_value_def)

lemma utf16_encode_unit: "utf16_encode (unat (c :: 16 word)) = [c]"
proof -
  have "unat c < 0x10000" using unsigned_less [of c, where ?'a = nat] by simp
  then show ?thesis by (simp add: utf16_encode_def)
qed

lemma utf16_encode_pair:
  assumes "is_lead c" "is_trail d"
  shows "utf16_encode (pair_code_point c d) = [c, d]"
proof -
  define h where "h = unat c - 0xD800"
  define l where "l = unat d - 0xDC00"
  have h: "unat c = 0xD800 + h" "h < 0x400" using assms(1) by (auto simp add: h_def is_lead_def)
  have l: "unat d = 0xDC00 + l" "l < 0x400" using assms(2) by (auto simp add: l_def is_trail_def)
  have v: "pair_code_point c d = h * 0x400 + l + 0x10000"
    by (simp add: pair_code_point_def h_def l_def)
  have "(h * 0x400 + l) div 0x400 = h" "(h * 0x400 + l) mod 0x400 = l" using l(2) by auto
  then have "utf16_encode (pair_code_point c d) = [of_nat (unat c), of_nat (unat d)]"
    by (simp add: v utf16_encode_def h(1) l(1))
  then show ?thesis by simp
qed

lemma pair_code_point_range:
  assumes "is_lead c" "is_trail d"
  shows "0x10000 \<le> pair_code_point c d \<and> pair_code_point c d \<le> 0x10FFFF"
  using assms by (auto simp add: pair_code_point_def is_lead_def is_trail_def)

lemma unit_scalar: "\<not> is_lead c \<Longrightarrow> \<not> is_trail c \<Longrightarrow> scalar_value (unat c)"
  using unsigned_less [of c, where ?'a = nat] by (auto simp add: scalar_value_def is_lead_def is_trail_def)

lemma decode_lit:
  assumes "c \<noteq> cu CHR ''%''" "decodeURIComponent r = Inr u"
  shows "decodeURIComponent (c # r) = Inr (c # u)"
  using assms by (auto simp add: decodeURIComponent_def split: option.splits)

lemma decode_pct:
  assumes "scalar_value v" "decodeURIComponent r = Inr u"
  shows "decodeURIComponent (pct (utf8_encode v) @ r) = Inr (utf16_encode v @ u)"
proof -
  have "v \<le> 0x10FFFF" using assms(1) by (auto simp add: scalar_value_def)
  then have "unescape (pct (utf8_encode v) @ r) =
      map_option ((@) (map Oct (utf8_encode v))) (unescape r)"
    using unescape_pct utf8_encode_octets by blast
  then show ?thesis
    using assms by (auto simp add: decodeURIComponent_def utf8_units_encode split: option.splits)
qed

lemma encode_decode:
  "encodeURIComponent u = Inr e \<Longrightarrow> decodeURIComponent e = Inr u"
proof (induction u arbitrary: e rule: encodeURIComponent.induct)
  case 1
  then show ?case by (simp add: decodeURIComponent_def)
next
  case (2 c cs)
  show ?case
  proof (cases "uriUnescaped c")
    case True
    with "2.prems" obtain r where r: "encodeURIComponent cs = Inr r" "e = c # r"
      by (auto split: sum.splits)
    have "decodeURIComponent r = Inr cs" using "2.IH"(1) True r(1) by simp
    then show ?thesis using decode_lit unreserved_safe True r(2) by blast
  next
    case False
    note unres = this
    show ?thesis
    proof (cases "is_lead c")
      case True
      then have nt: "\<not> is_trail c" by (auto simp add: is_lead_def is_trail_def)
      from "2.prems" unres nt True obtain d ds r where
        d: "cs = d # ds" "is_trail d" "encodeURIComponent ds = Inr r"
          "e = pct (utf8_encode (pair_code_point c d)) @ r"
        by (auto split: sum.splits list.splits if_splits)
      have "decodeURIComponent r = Inr ds"
        using "2.IH"(2) [OF unres nt True d(1) d(2) d(3)] .
      moreover have "scalar_value (pair_code_point c d)"
        using pair_code_point_range [OF True d(2)] by (simp add: scalar_value_def)
      ultimately show ?thesis
        using decode_pct utf16_encode_pair [OF True d(2)] d(1) d(4) by simp
    next
      case False
      from "2.prems" unres False obtain r where
        r: "\<not> is_trail c" "encodeURIComponent cs = Inr r" "e = pct (utf8_encode (unat c)) @ r"
        by (auto split: sum.splits if_splits)
      have "decodeURIComponent r = Inr cs"
        using "2.IH"(3) [OF unres r(1) False r(2)] .
      then show ?thesis
        using decode_pct unit_scalar [OF False r(1)] utf16_encode_unit r(3) by simp
    qed
  qed
qed

lemma encode_wellformed:
  "(wellformed u \<longrightarrow> (\<exists>e. encodeURIComponent u = Inr e)) \<and>
   (\<not> wellformed u \<longrightarrow> encodeURIComponent u = Inl URIError)"
proof (induction u rule: encodeURIComponent.induct)
  case 1
  show ?case by simp
next
  case (2 c cs)
  have u: "uriUnescaped c \<Longrightarrow> \<not> is_trail c \<and> \<not> is_lead c"
    by (auto simp add: uriUnescaped_def is_trail_def is_lead_def Let_def)
  show ?case
  proof (cases "uriUnescaped c")
    case True
    then show ?thesis using "2.IH"(1) [OF True] u [OF True] by (auto split: sum.splits)
  next
    case False
    show ?thesis
    proof (cases "is_trail c")
      case True
      then show ?thesis using False by simp
    next
      case nt: False
      show ?thesis
      proof (cases "is_lead c")
        case True
        show ?thesis
        proof (cases cs)
          case Nil
          then show ?thesis using False nt True by simp
        next
          case (Cons d ds)
          then show ?thesis
            using False nt True "2.IH"(2) [OF False nt True Cons]
            by (auto split: sum.splits)
        qed
      next
        case nl: False
        then show ?thesis using False nt "2.IH"(3) [OF False nt nl] by (auto split: sum.splits)
      qed
    qed
  qed
qed

lemma pct_safe:
  assumes "\<forall>b\<in>set bs. b < 256"
  shows "\<forall>c\<in>set (pct bs). safe_unit c"
proof -
  have "\<forall>c\<in>set (pct_octet b). safe_unit c" if "b < 256" for b
  proof -
    have "b div 16 < 16" "b mod 16 < 16" using that by auto
    then show ?thesis
      using hex_digit_safe by (auto simp add: pct_octet_def safe_unit_def cu_def)
  qed
  then show ?thesis using assms by (auto simp add: pct_def)
qed

lemma encode_safe:
  "encodeURIComponent u = Inr e \<Longrightarrow> \<forall>c\<in>set e. safe_unit c"
proof (induction u arbitrary: e rule: encodeURIComponent.induct)
  case 1
  then show ?case by simp
next
  case (2 c cs)
  show ?case
  proof (cases "uriUnescaped c")
    case True
    with "2.prems" obtain r where r: "encodeURIComponent cs = Inr r" "e = c # r"
      by (auto split: sum.splits)
    then show ?thesis using "2.IH"(1) [OF True r(1)] unreserved_safe [OF True] by simp
  next
    case False
    note unres = this
    show ?thesis
    proof (cases "is_lead c")
      case True
      then have nt: "\<not> is_trail c" by (auto simp add: is_lead_def is_trail_def)
      from "2.prems" unres nt True obtain d ds r where
        d: "cs = d # ds" "is_trail d" "encodeURIComponent ds = Inr r"
          "e = pct (utf8_encode (pair_code_point c d)) @ r"
        by (auto split: sum.splits list.splits if_splits)
      have "\<forall>c\<in>set (pct (utf8_encode (pair_code_point c d))). safe_unit c"
        using pct_safe utf8_encode_octets pair_code_point_range [OF True d(2)] by blast
      then show ?thesis
        using "2.IH"(2) [OF unres nt True d(1) d(2) d(3)] d(4) by auto
    next
      case False
      from "2.prems" unres False obtain r where
        r: "\<not> is_trail c" "encodeURIComponent cs = Inr r" "e = pct (utf8_encode (unat c)) @ r"
        by (auto split: sum.splits if_splits)
      have "unat c \<le> 0x10FFFF" using unsigned_less [of c, where ?'a = nat] by simp
      then have "\<forall>c\<in>set (pct (utf8_encode (unat c))). safe_unit c"
        using pct_safe utf8_encode_octets by blast
      then show ?thesis
        using "2.IH"(3) [OF unres r(1) False r(2)] r(3) by auto
    qed
  qed
qed

lemma split_on_absent: "sep \<notin> set xs \<Longrightarrow> split_on sep xs = [xs]"
  by (induction xs) auto

lemma query_param_url:
  assumes "\<forall>c\<in>set e. safe_unit c"
  shows "query_param (js ''url'') (js ''/api/proxy?url='' @ e) = Some (decodeURIComponent e)"
proof -
  have amp: "cu CHR ''&'' \<notin> set e" and eq: "\<forall>c\<in>set e. c \<noteq> cu CHR ''=''"
    using assms by (auto simp add: safe_unit_def)
  have q: "drop 1 (dropWhile (\<lambda>c. c \<noteq> cu CHR ''?'') (js ''/api/proxy?url='' @ e)) = js ''url='' @ e"
    by (simp add: js_def cu_def)
  have "cu CHR ''&'' \<notin> set (js ''url='' @ e)"
    using amp by (simp add: js_def cu_def)
  then have f: "split_on (cu CHR ''&'') (js ''url='' @ e) = [js ''url='' @ e]"
    by (rule split_on_absent)
  have k: "takeWhile (\<lambda>c. c \<noteq> cu CHR ''='') (js ''url='' @ e) = js ''url''"
    by (simp add: js_def cu_def)
  have v: "drop 1 (dropWhile (\<lambda>c. c \<noteq> cu CHR ''='') (js ''url='' @ e)) = e"
    by (simp add: js_def cu_def)
  show ?thesis
    unfolding query_param_def q f Let_def using k v by simp
qed

lemma wrap_query_param:
  assumes "wrap u = Inr p"
  shows "query_param (js ''url'') p = Some (Inr u)"
proof -
  from assms obtain e where e: "encodeURIComponent u = Inr e" "p = js ''/api/proxy?url='' @ e"
    by (auto simp add: wrap_def split: sum.splits)
  show ?thesis
    using query_param_url [OF encode_safe [OF e(1)]] encode_decode [OF e(1)] e(2) by simp
qed

lemma wrap_unpaired: "\<not> wellformed u \<Longrightarrow> wrap u = Inl URIError"
  using encode_wellformed [of u] by (simp add: wrap_def)

text \<open>
  Claim C4: for every string \<open>u\<close>, also one that holds \<open>?\<close>, \<open>&\<close>, \<open>#\<close> or a
  space, extracting the \<open>url\<close> query parameter from \<open>wrap(u)\<close> and percent-decoding it
  yields exactly \<open>u\<close>.

  As stated the claim fails: \<open>encodeURIComponent\<close> throws on a string with an unpaired
  surrogate, so \<open>wrap\<close> returns no path for it.
\<close>

theorem wrap_lone_surrogate: "wrap [0xD800] = Inl URIError"
  by (simp add: wrap_def uriUnescaped_def is_trail_def is_lead_def)

text \<open>
  Claim C4, amended: for every well-formed string \<open>u\<close> (no unpaired surrogate), \<open>wrap(u)\<close>
  returns a path, and the \<open>url\<close> parameter extracted from it and percent-decoded is
  exactly \<open>u\<close>. By \<open>wrap_unpaired\<close> well-formedness is also necessary.
\<close>

theorem wrap_roundtrip:
  "wellformed u \<Longrightarrow>
     \<exists>p. wrap u = Inr p \<and> query_param (js ''url'') p = Some (Inr u)"
proof -
  assume "wellformed u"
  then obtain e where "encodeURIComponent u = Inr e"
    using encode_wellformed by blast
  then have "wrap u = Inr (js ''/api/proxy?url='' @ e)" by (simp add: wrap_def)
  then show ?thesis using wrap_query_param by blast
qed

theorem wrap_roundtrip_witness:
  "wellformed (js ''a?b&c#d e'') \<and>
   wrap (js ''a?b&c#d e'') = Inr (js ''/api/proxy?url=a%3Fb%26c%23d%20e'') \<and>
   query_param (js ''url'') (js ''/api/proxy?url=a%3Fb%26c%23d%20e'') = Some (Inr (js ''a?b&c#d e''))"
proof -
  have w: "wellformed (js ''a?b&c#d e'')"
    by (simp add: js_def cu_def is_trail_def is_lead_def)
  have p: "wrap (js ''a?b&c#d e'') = Inr (js ''/api/proxy?url=a%3Fb%26c%23d%20e'')"
    by (simp add: wrap_def uriUnescaped_def is_trail_def is_lead_def js_def cu_def utf8_encode_def
        pct_def pct_octet_def hex_digit_def)
  show ?thesis using w p wrap_roundtrip [OF w] by simp
qed

section \<open>Properties of the attribute rules\<close>

subsection \<open>One pass, and the nine passes, seen from one element\<close>

lemma each_nodes_nth:
  "each_nodes tg f ns = Inr ns' \<Longrightarrow>
     length ns' = length ns \<and> (\<forall>i<length ns. each_node tg f (ns ! i) = Inr (ns' ! i))"
proof (induction ns arbitrary: ns')
  case Nil
  then show ?case by simp
next
  case (Cons n ns)
  from Cons.prems obtain m ms where
    m: "each_node tg f n = Inr m" "each_nodes tg f ns = Inr ms" "ns' = m # ms"
    by (auto split: sum.splits)
  show ?case using Cons.IH [OF m(2)] m(1) m(3) by (auto simp add: nth_Cons')
qed

lemma each_node_Element:
  "each_node tg f (Element t as cs) = Inr n' \<Longrightarrow>
     \<exists>as' cs'. n' = Element t as' cs' \<and> (if t = tg then f as else Inr as) = Inr as' \<and>
       each_nodes tg f cs = Inr cs'"
  by (auto split: sum.splits if_splits)

lemma each_nodes_at:
  "each_nodes tg f d = Inr d' \<Longrightarrow> node_at d p = Some (Element t as cs) \<Longrightarrow>
     \<exists>as' cs'. node_at d' p = Some (Element t as' cs') \<and>
       (if t = tg then f as else Inr as) = Inr as'"
proof (induction d p arbitrary: d' rule: node_at.induct)
  case (1 ns)
  then show ?case by simp
next
  case (2 ns i)
  then have i: "i < length ns" and n: "ns ! i = Element t as cs"
    by (auto split: if_splits)
  from each_nodes_nth [OF "2.prems"(1)] i n
  have l: "length d' = length ns" and e: "each_node tg f (Element t as cs) = Inr (d' ! i)"
    by auto
  from each_node_Element [OF e] show ?case using i l by auto
next
  case (3 ns i j p)
  then obtain t0 as0 cs0 where i: "i < length ns" and n: "ns ! i = Element t0 as0 cs0"
    and a: "node_at cs0 (j # p) = Some (Element t as cs)"
    by (auto split: if_splits node.splits)
  from each_nodes_nth [OF "3.prems"(1)] i n
  have l: "length d' = length ns" and e: "each_node tg f (Element t0 as0 cs0) = Inr (d' ! i)"
    by auto
  from each_node_Element [OF e] obtain as1 cs1 where
    c: "d' ! i = Element t0 as1 cs1" "each_nodes tg f cs0 = Inr cs1"
    by auto
  from "3.IH" [OF i n c(2) a] show ?case using i l c(1) by simp
qed

lemma for_targets_at:
  "for_targets nu b ts d = Inr d' \<Longrightarrow> node_at d p = Some (Element t as cs) \<Longrightarrow>
     \<exists>as' cs'. node_at d' p = Some (Element t as' cs') \<and> apply_targets nu b ts t as = Inr as'"
proof (induction ts arbitrary: d as cs)
  case Nil
  then show ?case by simp
next
  case (Cons tg ts)
  from Cons.prems(1) obtain d1 where
    d1: "each_nodes (fst tg) (rewrite_attr nu b tg) d = Inr d1" "for_targets nu b ts d1 = Inr d'"
    by (auto split: sum.splits)
  from each_nodes_at [OF d1(1) Cons.prems(2)] obtain as1 cs1 where
    a: "node_at d1 p = Some (Element t as1 cs1)"
       "(if t = fst tg then rewrite_attr nu b tg as else Inr as) = Inr as1"
    by auto
  from Cons.IH [OF d1(2) a(1)] show ?case using a(2) by simp
qed

lemma apply_targets_other:
  "t \<notin> fst ` set ts \<Longrightarrow> apply_targets nu b ts t as = Inr as"
  by (induction ts) auto

lemma apply_targets_distinct:
  "distinct (map fst ts) \<Longrightarrow>
     apply_targets nu b ts t as =
       (case map_of ts t of None \<Rightarrow> Inr as | Some a \<Rightarrow> rewrite_attr nu b (t, a) as)"
proof (induction ts)
  case Nil
  show ?case by simp
next
  case (Cons tg ts)
  obtain t0 a0 where tg: "tg = (t0, a0)" by (cases tg)
  show ?case
  proof (cases "t = t0")
    case True
    then have "t \<notin> fst ` set ts" using Cons.prems tg by auto
    then show ?thesis using True tg by (simp add: apply_targets_other split: sum.splits)
  next
    case False
    then show ?thesis using Cons tg by simp
  qed
qed

lemma cu_eq_iff: "cu c = cu d \<longleftrightarrow> c = d"
proof
  assume "cu c = cu d"
  then have "unat (cu c) = unat (cu d)" by simp
  then have "(of_char c :: nat) = of_char d" by (simp only: unat_cu)
  then show "c = d" by simp
qed simp

lemma js_eq_iff: "js s = js t \<longleftrightarrow> s = t"
proof -
  have "inj cu" by (simp add: inj_def cu_eq_iff)
  then show ?thesis by (simp add: js_def inj_map_eq_map)
qed

lemma distinct_attrTargets: "distinct (map fst attrTargets)"
  by (simp add: attrTargets_def js_eq_iff)

lemma rewrite_attrs_at:
  assumes "rewrite_attrs nu b d = Inr d'" "node_at d p = Some (Element t as cs)"
  shows "\<exists>as' cs'. node_at d' p = Some (Element t as' cs') \<and>
     (case map_of attrTargets t of None \<Rightarrow> Inr as | Some a \<Rightarrow> rewrite_attr nu b (t, a) as) = Inr as'"
  using for_targets_at [OF assms [unfolded rewrite_attrs_def]]
  by (simp add: apply_targets_distinct [OF distinct_attrTargets])

lemma map_of_attrTargets:
  "(t, a) \<in> set attrTargets \<Longrightarrow> map_of attrTargets t = Some a"
  using distinct_attrTargets by simp

lemma rewrite_attr_skip:
  "(case attr_get as a of None \<Rightarrow> True | Some v \<Rightarrow> skipped v) \<Longrightarrow>
     rewrite_attr nu b (t, a) as = Inr as"
  by (auto simp add: rewrite_attr_def split: option.splits)

lemma attr_get_set:
  "attr_get (attr_set as k v) k' = (if k' = k then Some v else attr_get as k')"
  by (simp add: attr_get_def attr_set_def update_conv')

lemma rewrite_attr_rewrites:
  assumes "attr_get as a = Some v" "\<not> skipped v" "rewrite_attr nu b (t, a) as = Inr as'"
  shows "\<exists>w. wrap (toAbsolute nu v b) = Inr w \<and> attr_get as' a = Some w \<and>
     (\<forall>k. k \<noteq> a \<longrightarrow> attr_get as' k =
        (if t = js ''form'' \<and> k = js ''method'' then Some (js ''GET'') else attr_get as k))"
  using assms
  by (auto simp add: rewrite_attr_def Let_def attr_get_set split: sum.splits)


subsection \<open>The attribute passes return on well-formed documents\<close>

lemma wellformed_below_surrogates: "\<forall>c\<in>set xs. unat c < 0xD800 \<Longrightarrow> wellformed xs"
  by (induction xs) (auto simp add: is_lead_def is_trail_def)

lemma wellformed_js: "wellformed (js s)"
proof -
  have "unat (cu c) < 0xD800" for c
    unfolding unat_cu by (rule order_less_trans [OF of_char_less_256]) simp
  then show ?thesis by (intro wellformed_below_surrogates) (auto simp add: js_def)
qed

lemma wrap_wellformed: "wrap u = Inr w \<Longrightarrow> wellformed w"
proof -
  assume "wrap u = Inr w"
  then obtain e where e: "encodeURIComponent u = Inr e" "w = js ''/api/proxy?url='' @ e"
    by (auto simp add: wrap_def split: sum.splits)
  have "unat c < 0xD800" if "c \<in> set e" for c
    using encode_safe [OF e(1)] that by (fastforce simp add: safe_unit_def)
  moreover have "unat c < 0xD800" if "c \<in> set (js ''/api/proxy?url='')" for c
    using that by (auto simp add: js_def cu_def)
  ultimately show ?thesis
    unfolding e(2) by (intro wellformed_below_surrogates) auto
qed

lemma wrap_total: "wellformed u \<Longrightarrow> \<exists>w. wrap u = Inr w"
  using encode_wellformed [of u] by (auto simp add: wrap_def)

lemma toAbsolute_wellformed: "wellformed v \<Longrightarrow> wellformed (toAbsolute nu v b)"
  by (simp add: toAbsolute_def wellformed_js split: option.splits)

lemma list_all_update:
  "list_all P al \<Longrightarrow> P (k, v) \<Longrightarrow> list_all P (AList.update k v al)"
  by (induction al) auto

lemma rewrite_attr_total:
  assumes "list_all (\<lambda>kv. wellformed (snd kv)) as"
  shows "\<exists>as'. rewrite_attr nu b target as = Inr as' \<and> list_all (\<lambda>kv. wellformed (snd kv)) as'"
proof (cases "attr_get as (snd target)")
  case None
  then show ?thesis using assms by (simp add: rewrite_attr_def)
next
  case (Some v)
  show ?thesis
  proof (cases "skipped v")
    case True
    then show ?thesis using Some assms by (simp add: rewrite_attr_def)
  next
    case False
    have "(snd target, v) \<in> set as" using Some by (simp add: attr_get_def map_of_SomeD)
    then have "wellformed v" using assms by (auto simp add: list_all_iff)
    then obtain w where w: "wrap (toAbsolute nu v b) = Inr w"
      using wrap_total toAbsolute_wellformed by blast
    have "list_all (\<lambda>kv. wellformed (snd kv)) (attr_set as (js ''method'') (js ''GET''))"
      using assms by (simp add: attr_set_def list_all_update wellformed_js)
    then show ?thesis
      using Some False w assms wrap_wellformed [OF w]
      by (simp add: rewrite_attr_def Let_def attr_set_def list_all_update)
  qed
qed

lemma each_nodes_total_aux:
  assumes "\<And>c. c \<in> set cs \<Longrightarrow> wellformed_node c \<Longrightarrow>
     \<exists>c'. each_node tg f c = Inr c' \<and> wellformed_node c'"
    and "wellformed_nodes cs"
  shows "\<exists>cs'. each_nodes tg f cs = Inr cs' \<and> wellformed_nodes cs'"
  using assms
proof (induction cs)
  case Nil
  show ?case by simp
next
  case (Cons c cs)
  from Cons.prems obtain c' where c: "each_node tg f c = Inr c'" "wellformed_node c'"
    by fastforce
  from Cons.IH Cons.prems obtain cs' where "each_nodes tg f cs = Inr cs'" "wellformed_nodes cs'"
    by fastforce
  then show ?case using c by simp
qed

lemma each_node_total:
  assumes f: "\<And>as. list_all (\<lambda>kv. wellformed (snd kv)) as \<Longrightarrow>
     \<exists>as'. f as = Inr as' \<and> list_all (\<lambda>kv. wellformed (snd kv)) as'"
  shows "wellformed_node n \<Longrightarrow> \<exists>n'. each_node tg f n = Inr n' \<and> wellformed_node n'"
proof (induction n)
  case (Element t as cs)
  then obtain as' where a: "(if t = tg then f as else Inr as) = Inr as'"
      "list_all (\<lambda>kv. wellformed (snd kv)) as'"
    using f [of as] by (cases "t = tg") auto
  from Element obtain cs' where "each_nodes tg f cs = Inr cs'" "wellformed_nodes cs'"
    using each_nodes_total_aux [of cs tg f] by auto
  then show ?case using a by simp
qed simp_all

lemma each_nodes_total:
  assumes f: "\<And>as. list_all (\<lambda>kv. wellformed (snd kv)) as \<Longrightarrow>
     \<exists>as'. f as = Inr as' \<and> list_all (\<lambda>kv. wellformed (snd kv)) as'"
    and "wellformed_nodes ns"
  shows "\<exists>ns'. each_nodes tg f ns = Inr ns' \<and> wellformed_nodes ns'"
  using each_nodes_total_aux [of ns tg f] each_node_total [of f, OF f] assms(2) by blast

lemma for_targets_total:
  "wellformed_nodes d \<Longrightarrow> \<exists>d'. for_targets nu b ts d = Inr d' \<and> wellformed_nodes d'"
proof (induction ts arbitrary: d)
  case Nil
  then show ?case by simp
next
  case (Cons tg ts)
  from each_nodes_total [of "rewrite_attr nu b tg" d "fst tg"] rewrite_attr_total Cons.prems
  obtain d1 where d1: "each_nodes (fst tg) (rewrite_attr nu b tg) d = Inr d1" "wellformed_nodes d1"
    by blast
  from Cons.IH [OF d1(2)] show ?case using d1(1) by simp
qed

lemma rewrite_attrs_total:
  "wellformed_nodes d \<Longrightarrow> \<exists>d'. rewrite_attrs nu b d = Inr d' \<and> wellformed_nodes d'"
  unfolding rewrite_attrs_def by (rule for_targets_total)

lemma encode_length: "encodeURIComponent u = Inr e \<Longrightarrow> length u \<le> length e"
proof (induction u arbitrary: e rule: encodeURIComponent.induct)
  case 1
  then show ?case by simp
next
  case (2 c cs)
  have l: "length (pct (utf8_encode v)) \<ge> 3" for v
    by (simp add: pct_def pct_octet_def utf8_encode_def)
  show ?case
  proof (cases "uriUnescaped c")
    case True
    with "2.prems" obtain r where r: "encodeURIComponent cs = Inr r" "e = c # r"
      by (auto split: sum.splits)
    then show ?thesis using "2.IH"(1) [OF True r(1)] by simp
  next
    case False
    note unres = this
    show ?thesis
    proof (cases "is_lead c")
      case True
      then have nt: "\<not> is_trail c" by (auto simp add: is_lead_def is_trail_def)
      from "2.prems" unres nt True obtain d ds r where
        d: "cs = d # ds" "is_trail d" "encodeURIComponent ds = Inr r"
          "e = pct (utf8_encode (pair_code_point c d)) @ r"
        by (auto split: sum.splits list.splits if_splits)
      show ?thesis
        using "2.IH"(2) [OF unres nt True d(1) d(2) d(3)] d(1) d(4)
          l [of "pair_code_point c d"] by simp
    next
      case False
      from "2.prems" unres False obtain r where
        r: "\<not> is_trail c" "encodeURIComponent cs = Inr r" "e = pct (utf8_encode (unat c)) @ r"
        by (auto split: sum.splits if_splits)
      show ?thesis
        using "2.IH"(3) [OF unres r(1) False r(2)] r(3) l [of "unat c"] by simp
    qed
  qed
qed

lemma wrap_differs: "wrap u = Inr w \<Longrightarrow> w \<noteq> u"
proof -
  assume "wrap u = Inr w"
  then obtain e where e: "encodeURIComponent u = Inr e" "w = js ''/api/proxy?url='' @ e"
    by (auto simp add: wrap_def split: sum.splits)
  have "length u < length w" using encode_length [OF e(1)] by (simp add: e(2) js_def)
  then show ?thesis by auto
qed

lemma toAbsolute_unresolved: "nu v b = None \<Longrightarrow> toAbsolute nu v b = v"
  by (simp add: toAbsolute_def)


section \<open>Properties of the style pass\<close>

text \<open>
  \<open>url_match_iff\<close> is the regular expression in words: the text starts with \<open>url(\<close>, the
  capture is not empty and runs up to the first closing parenthesis.
\<close>

lemma url_match_iff:
  "url_match s = Some (p1, rest) \<longleftrightarrow>
     s = js ''url('' @ p1 @ js '')'' @ rest \<and> p1 \<noteq> [] \<and> cu CHR '')'' \<notin> set p1"
proof
  assume m: "url_match s = Some (p1, rest)"
  define t where "t = drop 4 s"
  from m have pre: "prefix (js ''url('') s"
    and p1: "p1 = takeWhile (\<lambda>c. c \<noteq> cu CHR '')'') t" "p1 \<noteq> []"
    and r: "dropWhile (\<lambda>c. c \<noteq> cu CHR '')'') t \<noteq> []"
      "rest = tl (dropWhile (\<lambda>c. c \<noteq> cu CHR '')'') t)"
    by (auto simp add: url_match_def startsWith_def t_def Let_def split: if_splits)
  from pre have s: "s = js ''url('' @ t"
    by (auto simp add: prefix_def t_def js_def)
  from r(1) have "hd (dropWhile (\<lambda>c. c \<noteq> cu CHR '')'') t) = cu CHR '')''"
    using hd_dropWhile [of "\<lambda>c. c \<noteq> cu CHR '')''" t] by simp
  with r have "dropWhile (\<lambda>c. c \<noteq> cu CHR '')'') t = cu CHR '')'' # rest"
    by (cases "dropWhile (\<lambda>c. c \<noteq> cu CHR '')'') t") auto
  then have "t = p1 @ cu CHR '')'' # rest"
    using takeWhile_dropWhile_id [of "\<lambda>c. c \<noteq> cu CHR '')''" t] p1(1) by simp
  moreover have "cu CHR '')'' \<notin> set p1"
    unfolding p1(1) by (auto dest: set_takeWhileD)
  ultimately show "s = js ''url('' @ p1 @ js '')'' @ rest \<and> p1 \<noteq> [] \<and> cu CHR '')'' \<notin> set p1"
    using s p1(2) by (simp add: js_def)
next
  assume a: "s = js ''url('' @ p1 @ js '')'' @ rest \<and> p1 \<noteq> [] \<and> cu CHR '')'' \<notin> set p1"
  then have t: "drop 4 s = p1 @ cu CHR '')'' # rest" by (simp add: js_def)
  have np: "\<forall>x\<in>set p1. x \<noteq> cu CHR '')''" using a by auto
  have tw: "takeWhile (\<lambda>c. c \<noteq> cu CHR '')'') (p1 @ cu CHR '')'' # rest) = p1"
    using np by (simp add: takeWhile_tail)
  have dw: "dropWhile (\<lambda>c. c \<noteq> cu CHR '')'') (p1 @ cu CHR '')'' # rest) = cu CHR '')'' # rest"
    using np by (simp add: dropWhile_append3)
  have sw: "startsWith s (js ''url('')" using a by (simp add: startsWith_def js_def)
  have ne: "p1 \<noteq> []" using a by simp
  have "url_match s =
      (if takeWhile (\<lambda>c. c \<noteq> cu CHR '')'') (drop 4 s) \<noteq> [] \<and>
          dropWhile (\<lambda>c. c \<noteq> cu CHR '')'') (drop 4 s) \<noteq> []
       then Some (takeWhile (\<lambda>c. c \<noteq> cu CHR '')'') (drop 4 s),
                  tl (dropWhile (\<lambda>c. c \<noteq> cu CHR '')'') (drop 4 s)))
       else None)"
    using sw by (simp only: url_match_def Let_def if_True)
  then show "url_match s = Some (p1, rest)"
    unfolding t tw dw using ne by simp
qed

lemma css_replace_at_match:
  assumes "p1 \<noteq> []" "cu CHR '')'' \<notin> set p1"
  shows "css_replace nu b (js ''url('' @ p1 @ js '')'' @ post) =
     (case url_callback nu b (js ''url('' @ p1 @ js '')'') p1 of
        Inl e \<Rightarrow> Inl e
      | Inr rep \<Rightarrow>
          (case css_replace nu b post of Inl e \<Rightarrow> Inl e | Inr r \<Rightarrow> Inr (rep @ r)))"
proof -
  have m: "url_match (js ''url('' @ p1 @ js '')'' @ post) = Some (p1, post)"
    using assms by (simp add: url_match_iff)
  obtain c cs where s: "js ''url('' @ p1 @ js '')'' @ post = c # cs"
    by (simp add: js_def)
  show ?thesis
    unfolding s using m [unfolded s] by simp
qed

subsection \<open>The scan, an occurrence, and the content of its capture\<close>

lemma url_match_append:
  "url_match x = Some (p1, r) \<Longrightarrow> url_match (x @ s) = Some (p1, r @ s)"
  by (simp add: url_match_iff)

lemma css_replace_split:
  "scan_reaches (pre @ s) (length pre) \<Longrightarrow>
     css_replace nu b (pre @ s) =
       (case css_replace nu b pre of
          Inl e \<Rightarrow> Inl e
        | Inr r1 \<Rightarrow> (case css_replace nu b s of Inl e \<Rightarrow> Inl e | Inr r2 \<Rightarrow> Inr (r1 @ r2)))"
proof (induction "length pre" arbitrary: pre rule: less_induct)
  case less
  show ?case
  proof (cases pre)
    case Nil
    then show ?thesis by (simp split: sum.splits)
  next
    case (Cons c pre')
    show ?thesis
    proof (cases "url_match (c # pre' @ s)")
      case None
      have n: "url_match (c # pre') = None"
      proof (rule ccontr)
        assume "url_match (c # pre') \<noteq> None"
        then obtain p1 r where "url_match (c # pre') = Some (p1, r)" by auto
        from url_match_append [OF this, of s] None show False by simp
      qed
      from less.prems Cons None have "scan_reaches (pre' @ s) (length pre')" by simp
      from less.hyps [OF _ this] Cons
      have "css_replace nu b (pre' @ s) =
         (case css_replace nu b pre' of
            Inl e \<Rightarrow> Inl e
          | Inr r1 \<Rightarrow> (case css_replace nu b s of Inl e \<Rightarrow> Inl e | Inr r2 \<Rightarrow> Inr (r1 @ r2)))"
        by simp
      then show ?thesis using Cons None n by (simp split: sum.splits)
    next
      case (Some pr)
      obtain p1 rest where pr: "pr = (p1, rest)" by (cases pr)
      with Some have m: "url_match (c # pre' @ s) = Some (p1, rest)" by simp
      then have t: "c # pre' @ s = js ''url('' @ p1 @ js '')'' @ rest"
        and p1: "p1 \<noteq> []" "cu CHR '')'' \<notin> set p1"
        by (simp_all add: url_match_iff)
      define mt where "mt = js ''url('' @ p1 @ js '')''"
      have t': "pre @ s = mt @ rest" using t Cons by (simp add: mt_def)
      have l: "length (c # pre' @ s) - length rest = length mt"
        unfolding t by (simp add: mt_def)
      from less.prems Cons m l have le: "length mt \<le> length pre"
        and sr: "scan_reaches rest (length pre - length mt)"
        by simp_all
      from t' le obtain pre'' where pre: "pre = mt @ pre''" and rest: "rest = pre'' @ s"
        by (metis append_eq_append_conv_if append_take_drop_id)
      have m': "url_match (c # pre') = Some (p1, pre'')"
        using pre Cons p1 by (simp add: url_match_iff mt_def)
      have lt: "length pre'' < length pre" using pre by (simp add: mt_def js_def)
      have "scan_reaches (pre'' @ s) (length pre'')" using sr pre rest by simp
      from less.hyps [OF lt this]
      have ih: "css_replace nu b (pre'' @ s) =
         (case css_replace nu b pre'' of
            Inl e \<Rightarrow> Inl e
          | Inr r1 \<Rightarrow> (case css_replace nu b s of Inl e \<Rightarrow> Inl e | Inr r2 \<Rightarrow> Inr (r1 @ r2)))" .
      show ?thesis
        unfolding Cons
        using m m' ih rest by (simp split: sum.splits)
    qed
  qed
qed

lemma css_replace_reached:
  assumes "p1 \<noteq> []" and "cu CHR '')'' \<notin> set p1"
    and "scan_reaches (pre @ js ''url('' @ p1 @ js '')'' @ post) (length pre)"
  shows "css_replace nu b (pre @ js ''url('' @ p1 @ js '')'' @ post) =
     (case css_replace nu b pre of
        Inl e \<Rightarrow> Inl e
      | Inr rpre \<Rightarrow>
          (let raw = strip_quotes (trim p1) in
           if startsWith raw (js ''data:'') then
             (case css_replace nu b post of
                Inl e \<Rightarrow> Inl e
              | Inr r \<Rightarrow> Inr (rpre @ js ''url('' @ p1 @ js '')'' @ r))
           else
             (case wrap (toAbsolute nu raw b) of
                Inl e \<Rightarrow> Inl e
              | Inr w \<Rightarrow>
                  (case css_replace nu b post of
                     Inl e \<Rightarrow> Inl e
                   | Inr r \<Rightarrow> Inr (rpre @ js ''url('' @ w @ js '')'' @ r)))))"
  unfolding css_replace_split [OF assms(3)] css_replace_at_match [OF assms(1,2)]
  by (simp add: url_callback_def Let_def split: sum.splits)

lemma trim_append:
  assumes ws: "\<forall>c\<in>set ws1 \<union> set ws2. js_whitespace c"
    and m: "m \<noteq> [] \<longrightarrow> \<not> js_whitespace (hd m) \<and> \<not> js_whitespace (last m)"
  shows "trim (ws1 @ m @ ws2) = m"
proof (cases m)
  case Nil
  have "\<forall>x\<in>set (ws1 @ ws2). js_whitespace x" using ws by auto
  then have d: "dropWhile js_whitespace (ws1 @ [] @ ws2) = []"
    by (simp only: dropWhile_eq_Nil_conv append_Nil)
  show ?thesis unfolding Nil trim_def d by simp
next
  case (Cons x m')
  then have ne: "m \<noteq> []" by simp
  with m have h: "\<not> js_whitespace (hd m)" and nl: "\<not> js_whitespace (last m)" by blast+
  have "dropWhile js_whitespace (ws1 @ m @ ws2) = dropWhile js_whitespace (m @ ws2)"
    using ws by (intro dropWhile_append2) auto
  also have "\<dots> = m @ ws2" using h unfolding Cons by simp
  finally have l: "dropWhile js_whitespace (ws1 @ m @ ws2) = m @ ws2" .
  have "rev m \<noteq> []" "hd (rev m) = last m" using ne by (simp_all add: hd_rev)
  then obtain y r where r: "rev m = y # r" "y = last m" by (cases "rev m") auto
  have "dropWhile js_whitespace (rev ws2 @ rev m) = dropWhile js_whitespace (rev m)"
    using ws by (intro dropWhile_append2) auto
  also have "\<dots> = rev m" unfolding r(1) using nl r(2) by simp
  finally have "dropWhile js_whitespace (rev ws2 @ rev m) = rev m" .
  then show ?thesis unfolding trim_def l by simp
qed

lemma strip_quotes_append:
  assumes "lq \<in> {[], [0x22], [0x27]}" and "rq \<in> {[], [0x22], [0x27]}"
    and l: "lq = [] \<and> content @ rq \<noteq> [] \<longrightarrow> hd (content @ rq) \<notin> {0x22, 0x27}"
    and r: "rq = [] \<and> content \<noteq> [] \<longrightarrow> last content \<notin> {0x22, 0x27}"
  shows "strip_quotes (lq @ content @ rq) = content"
proof -
  define s1 where
    "s1 = (case lq @ content @ rq of [] \<Rightarrow> [] | c # cs \<Rightarrow> if is_quote c then cs else lq @ content @ rq)"
  have s1: "s1 = content @ rq"
  proof (cases "lq = []")
    case True
    show ?thesis
    proof (cases "content @ rq")
      case Nil
      then show ?thesis using True by (simp add: s1_def)
    next
      case (Cons c cs)
      then have "\<not> is_quote c" using l True by (auto simp add: is_quote_def)
      then show ?thesis using True Cons by (simp add: s1_def)
    qed
  next
    case False
    then obtain q where "lq = [q]" "is_quote q" using assms(1) by (auto simp add: is_quote_def)
    then show ?thesis by (simp add: s1_def)
  qed
  have e: "strip_quotes (lq @ content @ rq) =
      (if s1 \<noteq> [] \<and> is_quote (last s1) then butlast s1 else s1)"
    by (simp add: strip_quotes_def s1_def Let_def)
  show ?thesis
  proof (cases "rq = []")
    case True
    show ?thesis
    proof (cases "content = []")
      case True
      then show ?thesis unfolding e s1 using \<open>rq = []\<close> by simp
    next
      case False
      then have "\<not> is_quote (last content)" using r True by (auto simp add: is_quote_def)
      then show ?thesis unfolding e s1 using True by simp
    qed
  next
    case False
    then obtain q where "rq = [q]" "is_quote q" using assms(2) by (auto simp add: is_quote_def)
    then show ?thesis unfolding e s1 by simp
  qed
qed

lemma capture_content:
  assumes "\<forall>c\<in>set ws1 \<union> set ws2. js_whitespace c"
    and "lq \<in> {[], [0x22], [0x27]}" and "rq \<in> {[], [0x22], [0x27]}"
    and "lq @ content @ rq \<noteq> [] \<longrightarrow>
           \<not> js_whitespace (hd (lq @ content @ rq)) \<and> \<not> js_whitespace (last (lq @ content @ rq))"
    and "lq = [] \<and> content @ rq \<noteq> [] \<longrightarrow> hd (content @ rq) \<notin> {0x22, 0x27}"
    and "rq = [] \<and> content \<noteq> [] \<longrightarrow> last content \<notin> {0x22, 0x27}"
  shows "strip_quotes (trim (ws1 @ lq @ content @ rq @ ws2)) = content"
proof -
  have "trim (ws1 @ (lq @ content @ rq) @ ws2) = lq @ content @ rq"
    using assms(1,4) by (rule trim_append)
  then show ?thesis using strip_quotes_append [OF assms(2,3,5,6)] by simp
qed

lemma trim_parts:
  "\<exists>ws1 ws2. s = ws1 @ trim s @ ws2 \<and> (\<forall>c\<in>set ws1 \<union> set ws2. js_whitespace c) \<and>
     (trim s \<noteq> [] \<longrightarrow> \<not> js_whitespace (hd (trim s)) \<and> \<not> js_whitespace (last (trim s)))"
proof -
  define s' where "s' = dropWhile js_whitespace s"
  define ws1 where "ws1 = takeWhile js_whitespace s"
  define ws2 where "ws2 = rev (takeWhile js_whitespace (rev s'))"
  have t: "trim s = rev (dropWhile js_whitespace (rev s'))" by (simp add: trim_def s'_def)
  have a: "s = ws1 @ s'" by (simp add: ws1_def s'_def)
  have "rev (takeWhile js_whitespace (rev s') @ dropWhile js_whitespace (rev s')) = s'"
    by (simp only: takeWhile_dropWhile_id rev_rev_ident)
  then have b: "s' = trim s @ ws2" by (simp only: rev_append t ws2_def)
  have w: "\<forall>c\<in>set ws1 \<union> set ws2. js_whitespace c"
    by (auto simp add: ws1_def ws2_def dest: set_takeWhileD)
  have h: "\<not> js_whitespace (hd (trim s))" if ne: "trim s \<noteq> []"
  proof -
    from ne b have "s' \<noteq> []" by auto
    then have "\<not> js_whitespace (hd s')" unfolding s'_def by (rule hd_dropWhile)
    moreover have "hd s' = hd (trim s)" using b ne by (metis hd_append2)
    ultimately show ?thesis by simp
  qed
  have l: "\<not> js_whitespace (last (trim s))" if ne: "trim s \<noteq> []"
  proof -
    from ne have d: "dropWhile js_whitespace (rev s') \<noteq> []" unfolding t by simp
    then have "\<not> js_whitespace (hd (dropWhile js_whitespace (rev s')))" by (rule hd_dropWhile)
    moreover have "last (trim s) = hd (dropWhile js_whitespace (rev s'))"
      unfolding t using d by (simp add: last_rev)
    ultimately show ?thesis by simp
  qed
  from a b w h l show ?thesis by (metis append.assoc)
qed

lemma strip_parts:
  "\<exists>lq rq. t = lq @ strip_quotes t @ rq \<and> lq \<in> {[], [0x22], [0x27]} \<and> rq \<in> {[], [0x22], [0x27]} \<and>
     (lq = [] \<and> strip_quotes t @ rq \<noteq> [] \<longrightarrow> hd (strip_quotes t @ rq) \<notin> {0x22, 0x27}) \<and>
     (rq = [] \<and> strip_quotes t \<noteq> [] \<longrightarrow> last (strip_quotes t) \<notin> {0x22, 0x27})"
proof -
  define s1 where "s1 = (case t of [] \<Rightarrow> [] | c # cs \<Rightarrow> if is_quote c then cs else t)"
  define lq where "lq = (case t of [] \<Rightarrow> [] | c # cs \<Rightarrow> if is_quote c then [c] else [])"
  define rq where "rq = (if s1 \<noteq> [] \<and> is_quote (last s1) then [last s1] else [])"
  have e: "strip_quotes t = (if s1 \<noteq> [] \<and> is_quote (last s1) then butlast s1 else s1)"
    by (simp add: strip_quotes_def s1_def Let_def)
  have a: "t = lq @ s1" by (simp add: lq_def s1_def split: list.splits)
  have b: "s1 = strip_quotes t @ rq" by (simp add: e rq_def)
  have q1: "lq \<in> {[], [0x22], [0x27]}"
    by (auto simp add: lq_def is_quote_def split: list.splits)
  have q2: "rq \<in> {[], [0x22], [0x27]}"
    by (auto simp add: rq_def is_quote_def)
  have c1: "hd (strip_quotes t @ rq) \<notin> {0x22, 0x27}" if "lq = []" "strip_quotes t @ rq \<noteq> []"
  proof -
    from that(2) b have ne: "s1 \<noteq> []" by simp
    with a that(1) have "t = s1" by simp
    with ne that(1) have "\<not> is_quote (hd t)"
      by (cases t) (auto simp add: lq_def split: if_splits)
    then show ?thesis
      unfolding b [symmetric] \<open>t = s1\<close> [symmetric] by (simp add: is_quote_def)
  qed
  have c2: "last (strip_quotes t) \<notin> {0x22, 0x27}" if "rq = []" "strip_quotes t \<noteq> []"
  proof -
    from that(1) b have "strip_quotes t = s1" by simp
    moreover from that(1) have "\<not> (s1 \<noteq> [] \<and> is_quote (last s1))"
      by (auto simp add: rq_def split: if_splits)
    ultimately show ?thesis using that(2) by (simp add: is_quote_def)
  qed
  from a b q1 q2 c1 c2 show ?thesis by blast
qed

lemma capture_parts:
  "\<exists>ws1 lq content rq ws2.
     p1 = ws1 @ lq @ content @ rq @ ws2 \<and> content = strip_quotes (trim p1) \<and>
     (\<forall>c\<in>set ws1 \<union> set ws2. js_whitespace c) \<and>
     lq \<in> {[], [0x22], [0x27]} \<and> rq \<in> {[], [0x22], [0x27]} \<and>
     (lq @ content @ rq \<noteq> [] \<longrightarrow>
        \<not> js_whitespace (hd (lq @ content @ rq)) \<and> \<not> js_whitespace (last (lq @ content @ rq))) \<and>
     (lq = [] \<and> content @ rq \<noteq> [] \<longrightarrow> hd (content @ rq) \<notin> {0x22, 0x27}) \<and>
     (rq = [] \<and> content \<noteq> [] \<longrightarrow> last content \<notin> {0x22, 0x27})"
proof -
  from trim_parts [of p1] obtain ws1 ws2 where
    w: "p1 = ws1 @ trim p1 @ ws2" "\<forall>c\<in>set ws1 \<union> set ws2. js_whitespace c"
      "trim p1 \<noteq> [] \<longrightarrow> \<not> js_whitespace (hd (trim p1)) \<and> \<not> js_whitespace (last (trim p1))"
    by blast
  from strip_parts [of "trim p1"] obtain lq rq where
    q: "trim p1 = lq @ strip_quotes (trim p1) @ rq"
      "lq \<in> {[], [0x22], [0x27]}" "rq \<in> {[], [0x22], [0x27]}"
      "lq = [] \<and> strip_quotes (trim p1) @ rq \<noteq> [] \<longrightarrow>
         hd (strip_quotes (trim p1) @ rq) \<notin> {0x22, 0x27}"
      "rq = [] \<and> strip_quotes (trim p1) \<noteq> [] \<longrightarrow> last (strip_quotes (trim p1)) \<notin> {0x22, 0x27}"
    by blast
  define content where "content = strip_quotes (trim p1)"
  have t: "trim p1 = lq @ content @ rq" using q(1) by (simp add: content_def)
  have "p1 = ws1 @ lq @ content @ rq @ ws2" using w(1) unfolding t by simp
  moreover have "lq @ content @ rq \<noteq> [] \<longrightarrow>
        \<not> js_whitespace (hd (lq @ content @ rq)) \<and> \<not> js_whitespace (last (lq @ content @ rq))"
    using w(3) unfolding t .
  ultimately show ?thesis
    using w(2) q(2-5) unfolding content_def [symmetric] by blast
qed

subsection \<open>The style pass returns on well-formed text\<close>

lemma wellformed_non_surrogate_Cons: "non_surrogate x \<Longrightarrow> wellformed (x # s) = wellformed s"
  by (simp add: non_surrogate_def)

lemma wellformed_append_non_surrogate:
  "non_surrogate x \<Longrightarrow> wellformed (a @ x # s) \<longleftrightarrow> wellformed a \<and> wellformed s"
proof (induction a rule: wellformed.induct)
  case 1
  then show ?case by (simp add: non_surrogate_def)
next
  case (2 c cs)
  show ?case
  proof (cases "is_trail c")
    case True
    then show ?thesis by simp
  next
    case nt: False
    show ?thesis
    proof (cases "is_lead c")
      case True
      show ?thesis
      proof (cases cs)
        case Nil
        then show ?thesis using nt True "2.prems" by (simp add: non_surrogate_def)
      next
        case (Cons d ds)
        then show ?thesis using nt True "2.IH"(1) [OF nt True Cons "2.prems"] by simp
      qed
    next
      case False
      then show ?thesis using nt "2.IH"(2) [OF nt False "2.prems"] by simp
    qed
  qed
qed

lemma wellformed_dropWhile:
  "(\<And>c. P c \<Longrightarrow> non_surrogate c) \<Longrightarrow> wellformed s \<Longrightarrow> wellformed (dropWhile P s)"
proof (induction s)
  case Nil
  show ?case by simp
next
  case (Cons c s)
  show ?case
  proof (cases "P c")
    case True
    then have "non_surrogate c" by (rule Cons.prems(1))
    with Cons True show ?thesis by (simp add: non_surrogate_def)
  next
    case False
    then show ?thesis using Cons.prems(2) by simp
  qed
qed

lemma wellformed_butlast_non_surrogate:
  "s \<noteq> [] \<Longrightarrow> non_surrogate (last s) \<Longrightarrow> wellformed s \<Longrightarrow> wellformed (butlast s)"
proof -
  assume a: "s \<noteq> []" "non_surrogate (last s)" "wellformed s"
  have "butlast s @ [last s] = s" using a(1) by (rule append_butlast_last_id)
  then have "wellformed (butlast s @ last s # [])" using a(3) by (simp only:)
  with wellformed_append_non_surrogate [OF a(2), of "butlast s" "[]"] show ?thesis by blast
qed

lemma wellformed_rev_dropWhile:
  assumes "\<And>c. P c \<Longrightarrow> non_surrogate c" and "wellformed s"
  shows "wellformed (rev (dropWhile P (rev s)))"
proof -
  define m where "m = rev (dropWhile P (rev s))"
  define w where "w = rev (takeWhile P (rev s))"
  have "rev (takeWhile P (rev s) @ dropWhile P (rev s)) = s"
    by (simp only: takeWhile_dropWhile_id rev_rev_ident)
  then have s: "s = m @ w"
    by (simp only: rev_append m_def w_def)
  have pw: "\<forall>c\<in>set w. non_surrogate c"
    unfolding w_def using assms(1) by (auto dest: set_takeWhileD)
  show ?thesis
  proof (cases w)
    case Nil
    then show ?thesis unfolding m_def [symmetric] using assms(2) s by simp
  next
    case (Cons x w')
    then have "non_surrogate x" using pw by simp
    from wellformed_append_non_surrogate [OF this, of m w'] assms(2) s Cons
    show ?thesis unfolding m_def [symmetric] by simp
  qed
qed

lemma whitespace_non_surrogate: "js_whitespace c \<Longrightarrow> non_surrogate c"
  by (auto simp add: js_whitespace_def non_surrogate_def is_lead_def is_trail_def Let_def)

lemma quote_non_surrogate: "is_quote c \<Longrightarrow> non_surrogate c"
  by (auto simp add: is_quote_def non_surrogate_def is_lead_def is_trail_def)

lemma wellformed_trim: "wellformed s \<Longrightarrow> wellformed (trim s)"
  unfolding trim_def
  by (intro wellformed_rev_dropWhile wellformed_dropWhile whitespace_non_surrogate)

lemma wellformed_strip_quotes: "wellformed s \<Longrightarrow> wellformed (strip_quotes s)"
proof -
  assume w: "wellformed s"
  define s1 where "s1 = (case s of [] \<Rightarrow> [] | c # cs \<Rightarrow> if is_quote c then cs else s)"
  have w1: "wellformed s1"
  proof (cases s)
    case Nil
    then show ?thesis by (simp add: s1_def)
  next
    case (Cons c cs)
    show ?thesis
    proof (cases "is_quote c")
      case True
      then have "non_surrogate c" by (rule quote_non_surrogate)
      then show ?thesis using w Cons True by (simp add: s1_def non_surrogate_def)
    next
      case False
      then show ?thesis using w Cons by (simp add: s1_def)
    qed
  qed
  have e: "strip_quotes s = (if s1 \<noteq> [] \<and> is_quote (last s1) then butlast s1 else s1)"
    by (simp add: strip_quotes_def s1_def Let_def)
  show ?thesis
  proof (cases "s1 \<noteq> [] \<and> is_quote (last s1)")
    case True
    then have "wellformed (butlast s1)"
      using wellformed_butlast_non_surrogate [of s1] quote_non_surrogate w1 by blast
    then show ?thesis unfolding e using True by simp
  next
    case False
    then show ?thesis unfolding e using w1 by auto
  qed
qed

lemma cu_non_surrogate: "non_surrogate (cu c)"
proof -
  have "unat (cu c) < 0xD800"
    unfolding unat_cu by (rule order_less_trans [OF of_char_less_256]) simp
  then show ?thesis by (simp add: non_surrogate_def is_lead_def is_trail_def)
qed

lemma url_callback_total:
  assumes "wellformed p1"
  shows "\<exists>rep. url_callback nu b m p1 = Inr rep"
proof -
  have "wellformed (strip_quotes (trim p1))"
    using assms by (intro wellformed_strip_quotes wellformed_trim)
  then have "wellformed (toAbsolute nu (strip_quotes (trim p1)) b)"
    by (rule toAbsolute_wellformed)
  from wrap_total [OF this] show ?thesis
    by (auto simp add: url_callback_def Let_def)
qed

lemma css_replace_total_aux:
  "wellformed (pre @ s) \<Longrightarrow> \<exists>r. css_replace nu b s = Inr r"
proof (induction nu b s arbitrary: pre rule: css_replace.induct)
  case (1 nu b)
  show ?case by simp
next
  case (2 nu b c cs)
  show ?case
  proof (cases "url_match (c # cs)")
    case None
    have "wellformed ((pre @ [c]) @ cs)" using "2.prems" by simp
    from "2.IH"(1) [OF None this] show ?thesis using None by auto
  next
    case (Some pr)
    obtain p1 rest where pr: "pr = (p1, rest)" by (cases pr)
    from Some pr have m: "url_match (c # cs) = Some (p1, rest)" by simp
    then have s: "c # cs = js ''url('' @ p1 @ js '')'' @ rest"
      by (simp add: url_match_iff)
    have "wellformed ((pre @ js ''url'') @ cu CHR ''('' # (p1 @ cu CHR '')'' # rest))"
      using "2.prems" unfolding s by (simp add: js_def)
    then have "wellformed (p1 @ cu CHR '')'' # rest)"
      using wellformed_append_non_surrogate [OF cu_non_surrogate] by blast
    then have w: "wellformed p1" "wellformed rest"
      using wellformed_append_non_surrogate [OF cu_non_surrogate] by blast+
    from url_callback_total [OF w(1)] obtain rep where
      rep: "url_callback nu b (js ''url('' @ p1 @ js '')'') p1 = Inr rep"
      by blast
    have "wellformed ([] @ rest)" using w(2) by simp
    from "2.IH"(2) [OF Some pr [symmetric] rep this] obtain r where
      "css_replace nu b rest = Inr r" by blast
    then show ?thesis using m rep by simp
  qed
qed

lemma css_replace_total: "wellformed s \<Longrightarrow> \<exists>r. css_replace nu b s = Inr r"
  using css_replace_total_aux [of "[]" s] by simp

section \<open>Properties of the toolbar injection and of the rewriter as a whole\<close>

lemma prepend_nodes_map: "prepend_nodes bar ns = map (prepend_node bar) ns"
  by (induction ns) simp_all

lemma select_concat: "select tg ns = concat (map (select_node tg) ns)"
  by (induction ns) simp_all

lemma select_prepend_node:
  "Element (js ''body'') as cs \<in> set (select_node (js ''body'') n) \<Longrightarrow>
     Element (js ''body'') as (bar @ prepend_nodes bar cs)
       \<in> set (select_node (js ''body'') (prepend_node bar n))"
proof (induction n)
  case (Element t as0 cs0)
  show ?case
  proof (cases "Element (js ''body'') as cs = Element t as0 cs0")
    case True
    then show ?thesis by simp
  next
    case False
    with Element.prems have "Element (js ''body'') as cs \<in> set (select (js ''body'') cs0)"
      by (auto split: if_splits)
    then obtain c where c: "c \<in> set cs0"
      "Element (js ''body'') as cs \<in> set (select_node (js ''body'') c)"
      by (auto simp add: select_concat)
    from Element.IH [OF c] c(1)
    have "Element (js ''body'') as (bar @ prepend_nodes bar cs)
        \<in> set (select (js ''body'') (prepend_nodes bar cs0))"
      by (auto simp add: select_concat prepend_nodes_map)
    then have "Element (js ''body'') as (bar @ prepend_nodes bar cs)
        \<in> set (select (js ''body'') ((if t = js ''body'' then bar else []) @ prepend_nodes bar cs0))"
      by (auto simp add: select_concat)
    then show ?thesis by simp
  qed
qed simp_all

lemma select_prepend:
  "Element (js ''body'') as cs \<in> set (select (js ''body'') d) \<Longrightarrow>
     Element (js ''body'') as (bar @ prepend_nodes bar cs)
       \<in> set (select (js ''body'') (prepend_nodes bar d))"
  using select_prepend_node
  by (fastforce simp add: select_concat prepend_nodes_map)

lemma prepend_node_no_body:
  "select_node (js ''body'') n = [] \<Longrightarrow> prepend_node bar n = n"
proof (induction n)
  case (Element t as cs)
  then have t: "t \<noteq> js ''body''" and s: "select (js ''body'') cs = []"
    by (auto split: if_splits)
  have "prepend_node bar c = c" if "c \<in> set cs" for c
    using Element.IH [OF that] s that by (auto simp add: select_concat)
  then have "prepend_nodes bar cs = cs"
    by (simp add: prepend_nodes_map map_idI)
  then show ?case using t by simp
qed simp_all

lemma prepend_nodes_no_body:
  "select (js ''body'') d = [] \<Longrightarrow> prepend_nodes bar d = d"
  using prepend_node_no_body
  by (auto simp add: select_concat prepend_nodes_map map_idI)

subsection \<open>An element followed through the style pass and the injection\<close>

lemma style_nodes_nth:
  "style_nodes ch nu b ns = Inr ns' \<Longrightarrow>
     length ns' = length ns \<and> (\<forall>i<length ns. style_node ch nu b (ns ! i) = Inr (ns' ! i))"
proof (induction ns arbitrary: ns')
  case Nil
  then show ?case by simp
next
  case (Cons n ns)
  from Cons.prems obtain m ms where
    m: "style_node ch nu b n = Inr m" "style_nodes ch nu b ns = Inr ms" "ns' = m # ms"
    by (auto split: sum.splits)
  show ?case using Cons.IH [OF m(2)] m(1) m(3) by (auto simp add: nth_Cons')
qed

lemma style_nodes_at:
  "style_nodes ch nu b d = Inr d' \<Longrightarrow> node_at d p = Some (Element t as cs) \<Longrightarrow>
   outside_style d p \<Longrightarrow>
     (if t = js ''style''
      then \<exists>r. css_replace nu b (render ch (Some t) cs) = Inr r \<and>
             node_at d' p = Some (Element t as (parse_fragment ch (Some t) r))
      else \<exists>cs'. style_nodes ch nu b cs = Inr cs' \<and> node_at d' p = Some (Element t as cs'))"
proof (induction d p arbitrary: d' rule: node_at.induct)
  case (1 ns)
  then show ?case by simp
next
  case (2 ns i)
  then have i: "i < length ns" and n: "ns ! i = Element t as cs"
    by (auto split: if_splits)
  from style_nodes_nth [OF "2.prems"(1)] i n
  have l: "length d' = length ns" and e: "style_node ch nu b (Element t as cs) = Inr (d' ! i)"
    by auto
  from e show ?case using i l by (auto split: sum.splits if_splits)
next
  case (3 ns i j p)
  then obtain t0 as0 cs0 where i: "i < length ns" and n: "ns ! i = Element t0 as0 cs0"
    and a: "node_at cs0 (j # p) = Some (Element t as cs)"
    by (auto split: if_splits node.splits)
  from "3.prems"(3) i n have o: "t0 \<noteq> js ''style''" "outside_style cs0 (j # p)"
    by auto
  from style_nodes_nth [OF "3.prems"(1)] i n
  have l: "length d' = length ns" and e: "style_node ch nu b (Element t0 as0 cs0) = Inr (d' ! i)"
    by auto
  from e o(1) have "\<exists>cs1. d' ! i = Element t0 as0 cs1 \<and> style_nodes ch nu b cs0 = Inr cs1"
    by (auto split: sum.splits)
  then obtain cs1 where
    c: "d' ! i = Element t0 as0 cs1" "style_nodes ch nu b cs0 = Inr cs1"
    by blast
  from "3.IH" [OF i n c(2) a o(2)] show ?case
    using i l c(1) by (cases "t = js ''style''") auto
qed

lemma each_nodes_outside_style:
  "each_nodes tg f d = Inr d' \<Longrightarrow> outside_style d p \<Longrightarrow> outside_style d' p"
proof (induction d p arbitrary: d' rule: outside_style.induct)
  case (3 ns i j p)
  then obtain t0 as0 cs0 where i: "i < length ns" and n: "ns ! i = Element t0 as0 cs0"
    and o: "t0 \<noteq> js ''style''" "outside_style cs0 (j # p)"
    by (auto split: node.splits)
  from each_nodes_nth [OF "3.prems"(1)] i n
  have l: "length d' = length ns" and e: "each_node tg f (Element t0 as0 cs0) = Inr (d' ! i)"
    by auto
  from each_node_Element [OF e] obtain as1 cs1 where
    c: "d' ! i = Element t0 as1 cs1" "each_nodes tg f cs0 = Inr cs1"
    by auto
  from "3.IH" [OF n c(2) o(2)] show ?case using i l c(1) o(1) by simp
qed simp_all

lemma for_targets_outside_style:
  "for_targets nu b ts d = Inr d' \<Longrightarrow> outside_style d p \<Longrightarrow> outside_style d' p"
proof (induction ts arbitrary: d)
  case Nil
  then show ?case by simp
next
  case (Cons tg ts)
  from Cons.prems(1) obtain d1 where
    d1: "each_nodes (fst tg) (rewrite_attr nu b tg) d = Inr d1" "for_targets nu b ts d1 = Inr d'"
    by (auto split: sum.splits)
  from Cons.IH [OF d1(2) each_nodes_outside_style [OF d1(1) Cons.prems(2)]] show ?case .
qed

lemma node_at_Cons:
  assumes "p \<noteq> []"
  shows "node_at ns (i # p) =
     (if i < length ns then
        (case ns ! i of Element t as cs \<Rightarrow> node_at cs p | _ \<Rightarrow> None)
      else None)"
proof -
  from assms obtain j q where p: "p = j # q" by (cases p) auto
  show ?thesis unfolding p by simp
qed

lemma shifted_Nil_iff: "shifted k off ns p = [] \<longleftrightarrow> p = []"
  by (cases p) simp_all

lemma prepend_nodes_nth:
  "i < length ns \<Longrightarrow> (pre @ prepend_nodes bar ns) ! (length pre + i) = prepend_node bar (ns ! i)"
  by (simp add: prepend_nodes_map)

lemma prepend_nodes_at:
  "node_at ns p = Some (Element t as cs) \<Longrightarrow>
     node_at (pre @ prepend_nodes bar ns) (shifted (length bar) (length pre) ns p) =
       Some (Element t as ((if t = js ''body'' then bar else []) @ prepend_nodes bar cs))"
proof (induction ns p arbitrary: pre rule: node_at.induct)
  case (1 ns)
  then show ?case by simp
next
  case (2 ns i)
  then have i: "i < length ns" and n: "ns ! i = Element t as cs"
    by (auto split: if_splits)
  show ?case
    using i n prepend_nodes_nth [OF i, of pre bar] by (simp add: prepend_nodes_map)
next
  case (3 ns i j p)
  then obtain t0 as0 cs0 where i: "i < length ns" and n: "ns ! i = Element t0 as0 cs0"
    and a: "node_at cs0 (j # p) = Some (Element t as cs)"
    by (auto split: if_splits node.splits)
  define pre0 where "pre0 = (if t0 = js ''body'' then bar else [])"
  have l: "length pre0 = (if t0 = js ''body'' then length bar else 0)"
    by (simp add: pre0_def)
  have s: "shifted (length bar) (length pre) ns (i # j # p) =
      (length pre + i) # shifted (length bar) (length pre0) cs0 (j # p)"
    using i n l by simp
  have ne: "shifted (length bar) (length pre0) cs0 (j # p) \<noteq> []"
    by (simp add: shifted_Nil_iff)
  have e: "(pre @ prepend_nodes bar ns) ! (length pre + i) =
      Element t0 as0 (pre0 @ prepend_nodes bar cs0)"
    using prepend_nodes_nth [OF i, of pre bar] n by (simp add: pre0_def)
  have b: "length pre + i < length (pre @ prepend_nodes bar ns)"
    using i by (simp add: prepend_nodes_map)
  show ?case
    unfolding s node_at_Cons [OF ne] using b e "3.IH" [OF i n a, of pre0] by simp
qed

lemma each_nodes_shifted:
  "each_nodes tg f d = Inr d' \<Longrightarrow> shifted k off d' p = shifted k off d p"
proof (induction p arbitrary: d d' off)
  case Nil
  show ?case by simp
next
  case (Cons i p)
  note l = each_nodes_nth [OF Cons.prems]
  show ?case
  proof (cases "i < length d")
    case False
    then show ?thesis using l by simp
  next
    case True
    show ?thesis
    proof (cases "d ! i")
      case (Element t0 as0 cs0)
      from l True Element have "each_node tg f (Element t0 as0 cs0) = Inr (d' ! i)" by auto
      from each_node_Element [OF this] obtain as1 cs1 where
        c: "d' ! i = Element t0 as1 cs1" "each_nodes tg f cs0 = Inr cs1"
        by auto
      show ?thesis using True l Element c(1) Cons.IH [OF c(2)] by simp
    next
      case (Text s)
      with l True have "d' ! i = Text s" by (metis each_node.simps(2) sum.inject(2))
      then show ?thesis using True l Text by simp
    next
      case (Comment s)
      with l True have "d' ! i = Comment s" by (metis each_node.simps(3) sum.inject(2))
      then show ?thesis using True l Comment by simp
    next
      case (Directive s)
      with l True have "d' ! i = Directive s" by (metis each_node.simps(4) sum.inject(2))
      then show ?thesis using True l Directive by simp
    qed
  qed
qed

lemma for_targets_shifted:
  "for_targets nu b ts d = Inr d' \<Longrightarrow> shifted k off d' p = shifted k off d p"
proof (induction ts arbitrary: d)
  case Nil
  then show ?case by simp
next
  case (Cons tg ts)
  from Cons.prems(1) obtain d1 where
    d1: "each_nodes (fst tg) (rewrite_attr nu b tg) d = Inr d1" "for_targets nu b ts d1 = Inr d'"
    by (auto split: sum.splits)
  show ?case using Cons.IH [OF d1(2)] each_nodes_shifted [OF d1(1)] by simp
qed

lemma style_nodes_shifted:
  "style_nodes ch nu b d = Inr d' \<Longrightarrow> outside_style d p \<Longrightarrow> node_at d p = Some n \<Longrightarrow>
     shifted k off d' p = shifted k off d p"
proof (induction d p arbitrary: d' off rule: node_at.induct)
  case (1 ns)
  show ?case by simp
next
  case (2 ns i)
  then have i: "i < length ns" by (auto split: if_splits)
  note l = style_nodes_nth [OF "2.prems"(1)]
  show ?case using i l by (auto split: node.splits)
next
  case (3 ns i j p)
  then obtain t0 as0 cs0 where i: "i < length ns" and e: "ns ! i = Element t0 as0 cs0"
    and a: "node_at cs0 (j # p) = Some n"
    by (auto split: if_splits node.splits)
  from "3.prems"(2) i e have o: "t0 \<noteq> js ''style''" "outside_style cs0 (j # p)"
    by auto
  note l = style_nodes_nth [OF "3.prems"(1)]
  from l i e have "style_node ch nu b (Element t0 as0 cs0) = Inr (d' ! i)" by auto
  with o(1) have "\<exists>cs1. d' ! i = Element t0 as0 cs1 \<and> style_nodes ch nu b cs0 = Inr cs1"
    by (auto split: sum.splits)
  then obtain cs1 where c: "d' ! i = Element t0 as0 cs1" "style_nodes ch nu b cs0 = Inr cs1"
    by blast
  show ?case using i l e c(1) "3.IH" [OF i e c(2) o(2) a] by simp
qed

lemma rewrite_tree_children:
  assumes "rewrite_tree ch nu d b = Inr out"
    and "node_at d p = Some (Element t as cs)"
    and "outside_style d p"
  shows "\<exists>as' cs'. node_at out (shifted (length (toolbar ch b)) 0 d p) =
       Some (Element t as' ((if t = js ''body'' then toolbar ch b else []) @ cs')) \<and>
     (case map_of attrTargets t of None \<Rightarrow> Inr as | Some a \<Rightarrow> rewrite_attr nu b (t, a) as) = Inr as'"
proof -
  from assms(1) obtain d1 d2 where
    d1: "rewrite_attrs nu b d = Inr d1" and d2: "style_nodes ch nu b d1 = Inr d2"
    and out: "out = prepend_nodes (toolbar ch b) d2"
    by (auto simp add: rewrite_tree_def split: sum.splits)
  from rewrite_attrs_at [OF d1 assms(2)] obtain as' cs1 where
    n1: "node_at d1 p = Some (Element t as' cs1)"
    and r: "(case map_of attrTargets t of None \<Rightarrow> Inr as | Some a \<Rightarrow> rewrite_attr nu b (t, a) as) = Inr as'"
    by auto
  have o1: "outside_style d1 p"
    using for_targets_outside_style d1 assms(3) unfolding rewrite_attrs_def by blast
  from style_nodes_at [OF d2 n1 o1] obtain cs2 where n2: "node_at d2 p = Some (Element t as' cs2)"
    by (auto split: if_splits)
  have s: "shifted (length (toolbar ch b)) 0 d2 p = shifted (length (toolbar ch b)) 0 d p"
    using style_nodes_shifted [OF d2 o1 n1] for_targets_shifted d1
    unfolding rewrite_attrs_def by metis
  from prepend_nodes_at [OF n2, of "[]" "toolbar ch b"]
  show ?thesis using r s out by auto
qed

lemma rewrite_tree_at:
  assumes "rewrite_tree ch nu d b = Inr out"
    and "node_at d p = Some (Element t as cs)"
    and "outside_style d p"
  shows "\<exists>as' cs'. node_at out (shifted (length (toolbar ch b)) 0 d p) = Some (Element t as' cs') \<and>
     (case map_of attrTargets t of None \<Rightarrow> Inr as | Some a \<Rightarrow> rewrite_attr nu b (t, a) as) = Inr as'"
  using rewrite_tree_children [OF assms] by blast

subsection \<open>Style elements, documents without a body, and the rewriter on well-formed documents\<close>

lemma each_nodes_text: "list_all is_text cs \<Longrightarrow> each_nodes tg f cs = Inr cs"
proof (induction cs)
  case Nil
  show ?case by simp
next
  case (Cons c cs)
  then obtain s where "c = Text s" by (cases c) auto
  then show ?case using Cons by simp
qed

lemma wellformed_styles_all:
  "wellformed_styles ch ns \<longleftrightarrow> (\<forall>n\<in>set ns. wellformed_style ch n)"
  by (induction ns) simp_all

lemma each_node_wellformed_style:
  "each_node tg f n = Inr n' \<Longrightarrow> wellformed_style ch n \<Longrightarrow> wellformed_style ch n'"
proof (induction n arbitrary: n')
  case (Element t as cs)
  from each_node_Element [OF Element.prems(1)] obtain as' cs' where
    n': "n' = Element t as' cs'" and cs': "each_nodes tg f cs = Inr cs'"
    by blast
  show ?case
  proof (cases "t = js ''style''")
    case True
    with Element.prems(2) have tx: "list_all is_text cs" and w: "wellformed (render ch (Some t) cs)"
      by simp_all
    from each_nodes_text [OF tx, of tg f] cs' have "cs' = cs" by simp
    then show ?thesis using n' True tx w by simp
  next
    case False
    with Element.prems(2) have w: "wellformed_styles ch cs" by simp
    note l = each_nodes_nth [OF cs']
    have "wellformed_style ch c'" if "c' \<in> set cs'" for c'
    proof -
      from that obtain i where i: "i < length cs'" "cs' ! i = c'"
        by (auto simp add: in_set_conv_nth)
      then have a: "cs ! i \<in> set cs" "each_node tg f (cs ! i) = Inr c'"
        using l by auto
      then have "wellformed_style ch (cs ! i)" using w by (simp add: wellformed_styles_all)
      from Element.IH [OF a(1) a(2) this] show ?thesis .
    qed
    then show ?thesis using n' False by (simp add: wellformed_styles_all)
  qed
qed simp_all

lemma each_nodes_wellformed_styles:
  assumes "each_nodes tg f d = Inr d'" and "wellformed_styles ch d"
  shows "wellformed_styles ch d'"
proof -
  note l = each_nodes_nth [OF assms(1)]
  have "wellformed_style ch c'" if "c' \<in> set d'" for c'
  proof -
    from that obtain i where i: "i < length d'" "d' ! i = c'"
      by (auto simp add: in_set_conv_nth)
    then have a: "d ! i \<in> set d" "each_node tg f (d ! i) = Inr c'"
      using l by auto
    then have "wellformed_style ch (d ! i)" using assms(2) by (simp add: wellformed_styles_all)
    from each_node_wellformed_style [OF a(2) this] show ?thesis .
  qed
  then show ?thesis by (simp add: wellformed_styles_all)
qed

lemma for_targets_wellformed_styles:
  "for_targets nu b ts d = Inr d' \<Longrightarrow> wellformed_styles ch d \<Longrightarrow> wellformed_styles ch d'"
proof (induction ts arbitrary: d)
  case Nil
  then show ?case by simp
next
  case (Cons tg ts)
  from Cons.prems(1) obtain d1 where
    d1: "each_nodes (fst tg) (rewrite_attr nu b tg) d = Inr d1" "for_targets nu b ts d1 = Inr d'"
    by (auto split: sum.splits)
  from Cons.IH [OF d1(2) each_nodes_wellformed_styles [OF d1(1) Cons.prems(2)]] show ?case .
qed

lemma style_nodes_total_aux:
  assumes "\<And>c. c \<in> set cs \<Longrightarrow> \<exists>c'. style_node ch nu b c = Inr c'"
  shows "\<exists>cs'. style_nodes ch nu b cs = Inr cs'"
  using assms
proof (induction cs)
  case Nil
  show ?case by simp
next
  case (Cons c cs)
  from Cons.prems obtain c' where c: "style_node ch nu b c = Inr c'" by fastforce
  from Cons.IH Cons.prems obtain cs' where "style_nodes ch nu b cs = Inr cs'" by fastforce
  then show ?case using c by simp
qed

lemma style_node_total:
  "wellformed_style ch n \<Longrightarrow> \<exists>n'. style_node ch nu b n = Inr n'"
proof (induction n)
  case (Element t as cs)
  show ?case
  proof (cases "t = js ''style''")
    case True
    with Element.prems have "wellformed (render ch (Some t) cs)" by simp
    from css_replace_total [OF this, of nu b] show ?thesis using True by auto
  next
    case False
    with Element.prems have w: "wellformed_styles ch cs" by simp
    have "\<exists>cs'. style_nodes ch nu b cs = Inr cs'"
      using Element.IH w by (intro style_nodes_total_aux) (simp add: wellformed_styles_all)
    then show ?thesis using False by auto
  qed
qed simp_all

lemma style_nodes_total:
  "wellformed_styles ch d \<Longrightarrow> \<exists>d'. style_nodes ch nu b d = Inr d'"
  using style_node_total
  by (intro style_nodes_total_aux) (simp add: wellformed_styles_all)

lemma rewrite_tree_total:
  assumes "wellformed_nodes d" and "wellformed_styles ch d"
  shows "\<exists>out. rewrite_tree ch nu d b = Inr out"
proof -
  from rewrite_attrs_total [OF assms(1)] obtain d1 where d1: "rewrite_attrs nu b d = Inr d1"
    by blast
  have "wellformed_styles ch d1"
    using for_targets_wellformed_styles [OF d1 [unfolded rewrite_attrs_def] assms(2)] .
  from style_nodes_total [OF this] obtain d2 where "style_nodes ch nu b d1 = Inr d2"
    by blast
  then show ?thesis using d1 by (simp add: rewrite_tree_def)
qed

lemma each_nodes_at_text:
  "each_nodes tg f d = Inr d' \<Longrightarrow> node_at d p = Some (Element t as cs) \<Longrightarrow>
   list_all is_text cs \<Longrightarrow>
     \<exists>as'. node_at d' p = Some (Element t as' cs) \<and> (if t = tg then f as else Inr as) = Inr as'"
proof (induction d p arbitrary: d' rule: node_at.induct)
  case (1 ns)
  then show ?case by simp
next
  case (2 ns i)
  then have i: "i < length ns" and n: "ns ! i = Element t as cs"
    by (auto split: if_splits)
  from each_nodes_nth [OF "2.prems"(1)] i n
  have l: "length d' = length ns" and e: "each_node tg f (Element t as cs) = Inr (d' ! i)"
    by auto
  from each_node_Element [OF e] each_nodes_text [OF "2.prems"(3), of tg f]
  show ?case using i l by auto
next
  case (3 ns i j p)
  then obtain t0 as0 cs0 where i: "i < length ns" and n: "ns ! i = Element t0 as0 cs0"
    and a: "node_at cs0 (j # p) = Some (Element t as cs)"
    by (auto split: if_splits node.splits)
  from each_nodes_nth [OF "3.prems"(1)] i n
  have l: "length d' = length ns" and e: "each_node tg f (Element t0 as0 cs0) = Inr (d' ! i)"
    by auto
  from each_node_Element [OF e] obtain as1 cs1 where
    c: "d' ! i = Element t0 as1 cs1" "each_nodes tg f cs0 = Inr cs1"
    by auto
  from "3.IH" [OF i n c(2) a "3.prems"(3)] show ?case using i l c(1) by simp
qed

lemma for_targets_at_text:
  "for_targets nu b ts d = Inr d' \<Longrightarrow> node_at d p = Some (Element t as cs) \<Longrightarrow>
   list_all is_text cs \<Longrightarrow>
     \<exists>as'. node_at d' p = Some (Element t as' cs) \<and> apply_targets nu b ts t as = Inr as'"
proof (induction ts arbitrary: d as)
  case Nil
  then show ?case by simp
next
  case (Cons tg ts)
  from Cons.prems(1) obtain d1 where
    d1: "each_nodes (fst tg) (rewrite_attr nu b tg) d = Inr d1" "for_targets nu b ts d1 = Inr d'"
    by (auto split: sum.splits)
  from each_nodes_at_text [OF d1(1) Cons.prems(2,3)] obtain as1 where
    a: "node_at d1 p = Some (Element t as1 cs)"
       "(if t = fst tg then rewrite_attr nu b tg as else Inr as) = Inr as1"
    by auto
  from Cons.IH [OF d1(2) a(1) Cons.prems(3)] show ?case using a(2) by simp
qed

lemma rewrite_tree_style:
  assumes "rewrite_tree ch nu d b = Inr out"
    and "node_at d p = Some (Element (js ''style'') as cs)"
    and "outside_style d p"
    and "list_all is_text cs"
  shows "\<exists>r. css_replace nu b (render ch (Some (js ''style'')) cs) = Inr r \<and>
     node_at out (shifted (length (toolbar ch b)) 0 d p) =
       Some (Element (js ''style'') as
              (prepend_nodes (toolbar ch b) (parse_fragment ch (Some (js ''style'')) r)))"
proof -
  from assms(1) obtain d1 d2 where
    d1: "rewrite_attrs nu b d = Inr d1" and d2: "style_nodes ch nu b d1 = Inr d2"
    and out: "out = prepend_nodes (toolbar ch b) d2"
    by (auto simp add: rewrite_tree_def split: sum.splits)
  have ns: "js ''style'' \<notin> fst ` set attrTargets"
    by (simp add: attrTargets_def js_eq_iff)
  from for_targets_at_text [OF d1 [unfolded rewrite_attrs_def] assms(2,4)]
  have n1: "node_at d1 p = Some (Element (js ''style'') as cs)"
    by (simp add: apply_targets_other [OF ns])
  have o1: "outside_style d1 p"
    using for_targets_outside_style d1 assms(3) unfolding rewrite_attrs_def by blast
  from style_nodes_at [OF d2 n1 o1] obtain r where
    r: "css_replace nu b (render ch (Some (js ''style'')) cs) = Inr r"
    and n2: "node_at d2 p =
      Some (Element (js ''style'') as (parse_fragment ch (Some (js ''style'')) r))"
    by auto
  have s: "shifted (length (toolbar ch b)) 0 d2 p = shifted (length (toolbar ch b)) 0 d p"
    using style_nodes_shifted [OF d2 o1 n1] for_targets_shifted d1
    unfolding rewrite_attrs_def by metis
  have nb: "js ''style'' \<noteq> js ''body''" by (simp add: js_eq_iff)
  from prepend_nodes_at [OF n2, of "[]" "toolbar ch b"]
  show ?thesis using r s out nb by auto
qed

lemma select_empty_iff: "select g ns = [] \<longleftrightarrow> (\<forall>n\<in>set ns. select_node g n = [])"
  by (simp add: select_concat)

lemma each_node_select:
  "each_node tg f n = Inr n' \<Longrightarrow> select_node g n = [] \<Longrightarrow> select_node g n' = []"
proof (induction n arbitrary: n')
  case (Element t as cs)
  from each_node_Element [OF Element.prems(1)] obtain as' cs' where
    n': "n' = Element t as' cs'" and cs': "each_nodes tg f cs = Inr cs'"
    by blast
  from Element.prems(2) have t: "t \<noteq> g" and s: "select g cs = []"
    by (auto split: if_splits)
  note l = each_nodes_nth [OF cs']
  have "select_node g c' = []" if "c' \<in> set cs'" for c'
  proof -
    from that obtain i where i: "i < length cs'" "cs' ! i = c'"
      by (auto simp add: in_set_conv_nth)
    then have a: "cs ! i \<in> set cs" "each_node tg f (cs ! i) = Inr c'"
      using l by auto
    then have "select_node g (cs ! i) = []" using s by (simp add: select_empty_iff)
    from Element.IH [OF a(1) a(2) this] show ?thesis .
  qed
  then show ?case using n' t by (simp add: select_empty_iff)
next
  case (Text s)
  then show ?case by auto
next
  case (Comment s)
  then show ?case by auto
next
  case (Directive s)
  then show ?case by auto
qed

lemma each_nodes_select:
  assumes "each_nodes tg f d = Inr d'" and "select g d = []"
  shows "select g d' = []"
proof -
  note l = each_nodes_nth [OF assms(1)]
  have "select_node g c' = []" if "c' \<in> set d'" for c'
  proof -
    from that obtain i where i: "i < length d'" "d' ! i = c'"
      by (auto simp add: in_set_conv_nth)
    then have a: "d ! i \<in> set d" "each_node tg f (d ! i) = Inr c'"
      using l by auto
    then have "select_node g (d ! i) = []" using assms(2) by (simp add: select_empty_iff)
    from each_node_select [OF a(2) this] show ?thesis .
  qed
  then show ?thesis by (simp add: select_empty_iff)
qed

lemma for_targets_select:
  "for_targets nu b ts d = Inr d' \<Longrightarrow> select g d = [] \<Longrightarrow> select g d' = []"
proof (induction ts arbitrary: d)
  case Nil
  then show ?case by simp
next
  case (Cons tg ts)
  from Cons.prems(1) obtain d1 where
    d1: "each_nodes (fst tg) (rewrite_attr nu b tg) d = Inr d1" "for_targets nu b ts d1 = Inr d'"
    by (auto split: sum.splits)
  from Cons.IH [OF d1(2) each_nodes_select [OF d1(1) Cons.prems(2)]] show ?case .
qed

lemma style_node_select:
  assumes h: "\<And>r. select g (parse_fragment ch (Some (js ''style'')) r) = []"
  shows "style_node ch nu b n = Inr n' \<Longrightarrow> select_node g n = [] \<Longrightarrow> select_node g n' = []"
proof (induction n arbitrary: n')
  case (Element t as cs)
  from Element.prems(2) have t: "t \<noteq> g" and s: "select g cs = []"
    by (auto split: if_splits)
  show ?case
  proof (cases "t = js ''style''")
    case True
    with Element.prems(1) obtain r where "n' = Element t as (parse_fragment ch (Some t) r)"
      by (auto split: sum.splits)
    then show ?thesis using t h True by simp
  next
    case False
    with Element.prems(1) obtain cs' where
      n': "n' = Element t as cs'" and cs': "style_nodes ch nu b cs = Inr cs'"
      by (auto split: sum.splits)
    note l = style_nodes_nth [OF cs']
    have "select_node g c' = []" if "c' \<in> set cs'" for c'
    proof -
      from that obtain i where i: "i < length cs'" "cs' ! i = c'"
        by (auto simp add: in_set_conv_nth)
      then have a: "cs ! i \<in> set cs" "style_node ch nu b (cs ! i) = Inr c'"
        using l by auto
      then have "select_node g (cs ! i) = []" using s by (simp add: select_empty_iff)
      from Element.IH [OF a(1) a(2) this] show ?thesis .
    qed
    then show ?thesis using n' t by (simp add: select_empty_iff)
  qed
next
  case (Text s)
  then show ?case by auto
next
  case (Comment s)
  then show ?case by auto
next
  case (Directive s)
  then show ?case by auto
qed

lemma style_nodes_select:
  assumes h: "\<And>r. select g (parse_fragment ch (Some (js ''style'')) r) = []"
    and "style_nodes ch nu b d = Inr d'" and "select g d = []"
  shows "select g d' = []"
proof -
  note l = style_nodes_nth [OF assms(2)]
  have "select_node g c' = []" if "c' \<in> set d'" for c'
  proof -
    from that obtain i where i: "i < length d'" "d' ! i = c'"
      by (auto simp add: in_set_conv_nth)
    then have a: "d ! i \<in> set d" "style_node ch nu b (d ! i) = Inr c'"
      using l by auto
    then have "select_node g (d ! i) = []" using assms(3) by (simp add: select_empty_iff)
    from style_node_select [of g ch, OF h a(2) this] show ?thesis .
  qed
  then show ?thesis by (simp add: select_empty_iff)
qed

lemma rewrite_tree_no_body:
  assumes h: "\<And>r. select (js ''body'') (parse_fragment ch (Some (js ''style'')) r) = []"
    and "select (js ''body'') d = []"
  shows "rewrite_tree ch nu d b =
     (case rewrite_attrs nu b d of Inl e \<Rightarrow> Inl e | Inr d1 \<Rightarrow> style_nodes ch nu b d1)"
proof (cases "rewrite_attrs nu b d")
  case (Inl e)
  then show ?thesis by (simp add: rewrite_tree_def)
next
  case (Inr d1)
  have s1: "select (js ''body'') d1 = []"
    using for_targets_select [OF Inr [unfolded rewrite_attrs_def] assms(2)] .
  show ?thesis
  proof (cases "style_nodes ch nu b d1")
    case (Inl e)
    then show ?thesis using Inr by (simp add: rewrite_tree_def)
  next
    case d2: (Inr d2)
    have "select (js ''body'') d2 = []"
      using style_nodes_select [of "js ''body''" ch, OF h d2 s1] .
    then show ?thesis using Inr d2 by (simp add: rewrite_tree_def prepend_nodes_no_body)
  qed
qed

lemma wellformed_styles_at:
  "wellformed_styles ch d \<Longrightarrow> node_at d p = Some (Element (js ''style'') as cs) \<Longrightarrow>
   outside_style d p \<Longrightarrow>
     list_all is_text cs \<and> wellformed (render ch (Some (js ''style'')) cs)"
proof (induction d p rule: node_at.induct)
  case (1 ns)
  then show ?case by simp
next
  case (2 ns i)
  then have i: "i < length ns" and n: "ns ! i = Element (js ''style'') as cs"
    by (auto split: if_splits)
  from i have "ns ! i \<in> set ns" by simp
  with "2.prems"(1) have "wellformed_style ch (ns ! i)" by (simp add: wellformed_styles_all)
  then show ?case unfolding n by simp
next
  case (3 ns i j p)
  then obtain t0 as0 cs0 where i: "i < length ns" and n: "ns ! i = Element t0 as0 cs0"
    and a: "node_at cs0 (j # p) = Some (Element (js ''style'') as cs)"
    by (auto split: if_splits node.splits)
  from "3.prems"(3) i n have o: "t0 \<noteq> js ''style''" "outside_style cs0 (j # p)"
    by auto
  from i have "ns ! i \<in> set ns" by simp
  with "3.prems"(1) have "wellformed_style ch (ns ! i)" by (simp add: wellformed_styles_all)
  then have "wellformed_styles ch cs0" unfolding n using o(1) by simp
  from "3.IH" [OF i n this a o(2)] show ?case .
qed

subsection \<open>The toolbar of the examples\<close>

lemma toolbar_html_example: "toolbar_html b = example_markup b"
  by (simp only: toolbar_html_def example_markup_def)

lemma toolbar_example_page:
  "toolbar example_cheerio (js ''https://example.com/page'') =
     example_toolbar (js ''https://example.com/page'')"
  by (simp add: toolbar_def toolbar_html_example example_cheerio_def)

lemma example_markup_differ:
  "example_markup (js ''https://example.com/'') \<noteq> example_markup (js ''https://example.com/page'')"
proof
  assume "example_markup (js ''https://example.com/'') = example_markup (js ''https://example.com/page'')"
  then have "length (example_markup (js ''https://example.com/'')) =
      length (example_markup (js ''https://example.com/page''))"
    by simp
  then show False by (simp add: example_markup_def js_def)
qed

lemma toolbar_example_root:
  "toolbar example_cheerio (js ''https://example.com/'') =
     example_toolbar (js ''https://example.com/'')"
  by (simp add: toolbar_def toolbar_html_example example_cheerio_def example_markup_differ)

text \<open>The definitions unfolded to evaluate the rewriter on a concrete document.\<close>

lemmas eval_defs = rewrite_attrs_def attrTargets_def rewrite_attr_def skipped_def startsWith_def
  toLowerCaseJs_def lower_cu_def js_def cu_def attr_get_def attr_set_def toAbsolute_def wrap_def
  uriUnescaped_def is_lead_def is_trail_def utf8_encode_def pct_def pct_octet_def hex_digit_def Let_def
  example_URL_def

text \<open>
  Claim C9: when the document has a body element, the output has the navigation toolbar as
  the first child of the body; when it has none, the injection is a no-op and the rewriter
  does not raise an error.

  \<open>d\<close> is the parsed document and \<open>bar\<close> the nodes the parser reads from the markup of
  the toolbar: the \<open>div\<close> with the form that sends \<open>url\<close> to \<open>/api/proxy\<close> by GET, its
  text field holding the base URL, and the style rule that reserves the space. Whenever the
  rewriter returns, every body element of \<open>d\<close> has, at its path in the output, its
  attributes and \<open>bar\<close> as its first children. When \<open>d\<close> has no body element, the
  rewriter returns what the attribute and style passes return, tree or error: the injection
  changes nothing and adds no error. On a document without unpaired surrogates the rewriter
  returns. The second hypothesis says of the parser that what it reads inside a \<open>style\<close>
  element holds no body element (it is text).
\<close>

theorem toolbar_injected:
  assumes \<open>bar = parse_fragment ch None
     (js ''\<newline>'' @
      js ''    <div id="proxy-bar" style="position:fixed;top:0;left:0;right:0;background:#111;color:#eee;font:14px/1.4 sans-serif;padding:8px;z-index:999999;">\<newline>'' @
      js ''      <form action="/api/proxy" method="GET" style="display:flex;gap:8px;">\<newline>'' @
      js ''        <input type="text" name="url" value="'' @
      b @
      js ''" style="flex:1;padding:6px;border-radius:4px;border:1px solid #333;background:#222;color:#eee;" />\<newline>'' @
      js ''        <button type="submit" style="padding:6px 10px;border-radius:4px;background:#444;color:#eee;border:1px solid #333;">Go</button>\<newline>'' @
      js ''        <span style="margin-left:auto;opacity:0.8">Proxying: '' @
      b @
      js ''</span>\<newline>'' @
      js ''      </form>\<newline>'' @
      js ''    </div>\<newline>'' @
      js ''    <style>html,body{margin-top:40px !important}</style>\<newline>'' @
      js ''  '')\<close>
    and "\<forall>r. select (js ''body'') (parse_fragment ch (Some (js ''style'')) r) = []"
  shows "(\<forall>out p as cs.
       rewrite_tree ch nu d b = Inr out \<and>
       node_at d p = Some (Element (js ''body'') as cs) \<and> outside_style d p \<longrightarrow>
         (\<exists>cs'. node_at out (shifted (length bar) 0 d p) =
            Some (Element (js ''body'') as (bar @ cs')))) \<and>
    (select (js ''body'') d = [] \<longrightarrow>
       rewrite_tree ch nu d b =
         (case rewrite_attrs nu b d of Inl e \<Rightarrow> Inl e | Inr d1 \<Rightarrow> style_nodes ch nu b d1)) \<and>
    (wellformed_nodes d \<and> wellformed_styles ch d \<longrightarrow> (\<exists>out. rewrite_tree ch nu d b = Inr out))"
proof -
  have bar: "toolbar ch b = bar"
    unfolding assms(1) by (simp only: toolbar_def toolbar_html_def)
  have nb: "map_of attrTargets (js ''body'') = None"
    by (simp add: attrTargets_def js_eq_iff)
  have "\<exists>cs'. node_at out (shifted (length bar) 0 d p) = Some (Element (js ''body'') as (bar @ cs'))"
    if "rewrite_tree ch nu d b = Inr out" "node_at d p = Some (Element (js ''body'') as cs)"
      "outside_style d p" for out p as cs
    using rewrite_tree_children [OF that] nb unfolding bar by auto
  moreover have "rewrite_tree ch nu d b =
      (case rewrite_attrs nu b d of Inl e \<Rightarrow> Inl e | Inr d1 \<Rightarrow> style_nodes ch nu b d1)"
    if "select (js ''body'') d = []"
    using assms(2) that by (intro rewrite_tree_no_body) simp_all
  moreover have "\<exists>out. rewrite_tree ch nu d b = Inr out"
    if "wellformed_nodes d" "wellformed_styles ch d"
    using that by (rule rewrite_tree_total)
  ultimately show ?thesis by blast
qed

theorem toolbar_injected_witness:
  \<open>rewrite_tree example_cheerio example_URL
     [Element (js ''html'') []
        [Element (js ''head'') [] [],
         Element (js ''body'') [] [Element (js ''p'') [] [Text (js ''hi'')]]]]
     (js ''https://example.com/page'') =
   Inr [Element (js ''html'') []
          [Element (js ''head'') [] [],
           Element (js ''body'') []
             [Text (js ''\<newline>    ''),
              Element (js ''div'')
                [(js ''id'', js ''proxy-bar''),
                 (js ''style'', js ''position:fixed;top:0;left:0;right:0;background:#111;color:#eee;font:14px/1.4 sans-serif;padding:8px;z-index:999999;'')]
                [Text (js ''\<newline>      ''),
                 Element (js ''form'')
                   [(js ''action'', js ''/api/proxy''), (js ''method'', js ''GET''),
                    (js ''style'', js ''display:flex;gap:8px;'')]
                   [Text (js ''\<newline>        ''),
                    Element (js ''input'')
                      [(js ''type'', js ''text''), (js ''name'', js ''url''),
                       (js ''value'', js ''https://example.com/page''),
                       (js ''style'', js ''flex:1;padding:6px;border-radius:4px;border:1px solid #333;background:#222;color:#eee;'')]
                      [],
                    Text (js ''\<newline>        ''),
                    Element (js ''button'')
                      [(js ''type'', js ''submit''),
                       (js ''style'', js ''padding:6px 10px;border-radius:4px;background:#444;color:#eee;border:1px solid #333;'')]
                      [Text (js ''Go'')],
                    Text (js ''\<newline>        ''),
                    Element (js ''span'') [(js ''style'', js ''margin-left:auto;opacity:0.8'')]
                      [Text (js ''Proxying: https://example.com/page'')],
                    Text (js ''\<newline>      '')],
                 Text (js ''\<newline>    '')],
              Text (js ''\<newline>    ''),
              Element (js ''style'') [] [Text (js ''html,body{margin-top:40px !important}'')],
              Text (js ''\<newline>  ''),
              Element (js ''p'') [] [Text (js ''hi'')]]]] \<and>
   select (js ''body'') [Element (js ''p'') [] [Text (js ''hi'')]] = [] \<and>
   rewrite_tree example_cheerio example_URL [Element (js ''p'') [] [Text (js ''hi'')]]
     (js ''https://example.com/page'') =
   Inr [Element (js ''p'') [] [Text (js ''hi'')]]\<close>
proof -
  define b where "b = js ''https://example.com/page''"
  define p where "p = Element (js ''p'') [] [Text (js ''hi'')]"
  define d where "d = [Element (js ''html'') [] [Element (js ''head'') [] [], Element (js ''body'') [] [p]]]"
  have ne: "js ''p'' \<noteq> js ''body''" "js ''p'' \<noteq> js ''style''" "js ''html'' \<noteq> js ''body''"
    "js ''html'' \<noteq> js ''style''" "js ''body'' \<noteq> js ''style''" "js ''head'' \<noteq> js ''body''"
    "js ''head'' \<noteq> js ''style''"
    by (simp_all add: js_eq_iff)
  have bar: \<open>example_toolbar b = parse_fragment example_cheerio None
     (js ''\<newline>'' @
      js ''    <div id="proxy-bar" style="position:fixed;top:0;left:0;right:0;background:#111;color:#eee;font:14px/1.4 sans-serif;padding:8px;z-index:999999;">\<newline>'' @
      js ''      <form action="/api/proxy" method="GET" style="display:flex;gap:8px;">\<newline>'' @
      js ''        <input type="text" name="url" value="'' @
      b @
      js ''" style="flex:1;padding:6px;border-radius:4px;border:1px solid #333;background:#222;color:#eee;" />\<newline>'' @
      js ''        <button type="submit" style="padding:6px 10px;border-radius:4px;background:#444;color:#eee;border:1px solid #333;">Go</button>\<newline>'' @
      js ''        <span style="margin-left:auto;opacity:0.8">Proxying: '' @
      b @
      js ''</span>\<newline>'' @
      js ''      </form>\<newline>'' @
      js ''    </div>\<newline>'' @
      js ''    <style>html,body{margin-top:40px !important}</style>\<newline>'' @
      js ''  '')\<close>
    by (simp add: example_cheerio_def example_markup_def b_def)
  have st: "\<forall>r. select (js ''body'') (parse_fragment example_cheerio (Some (js ''style'')) r) = []"
    by (simp add: example_cheerio_def)
  have tb: "toolbar example_cheerio b = example_toolbar b"
    unfolding bar by (simp only: toolbar_def toolbar_html_def)
  have a1: "rewrite_attrs example_URL b d = Inr d"
    by (simp add: d_def p_def rewrite_attrs_def attrTargets_def js_eq_iff)
  have s1: "style_nodes example_cheerio example_URL b d = Inr d"
    by (simp add: d_def p_def ne)
  have r1: "rewrite_tree example_cheerio example_URL d b =
      Inr [Element (js ''html'') []
             [Element (js ''head'') [] [], Element (js ''body'') [] (example_toolbar b @ [p])]]"
    unfolding rewrite_tree_def a1 s1 tb by (simp add: d_def p_def ne)
  have a2: "rewrite_attrs example_URL b [p] = Inr [p]"
    by (simp add: p_def rewrite_attrs_def attrTargets_def js_eq_iff)
  have s2: "style_nodes example_cheerio example_URL b [p] = Inr [p]"
    by (simp add: p_def ne)
  have nb: "select (js ''body'') [p] = []" by (simp add: p_def ne)
  from toolbar_injected [where nu = example_URL and d = "[p]", OF bar st] nb
  have "rewrite_tree example_cheerio example_URL [p] b =
      (case rewrite_attrs example_URL b [p] of
         Inl e \<Rightarrow> Inl e
       | Inr d1 \<Rightarrow> style_nodes example_cheerio example_URL b d1)"
    by blast
  then have r2: "rewrite_tree example_cheerio example_URL [p] b = Inr [p]"
    by (simp only: a2 s2 sum.case)
  have e: "js ''Proxying: '' @ js ''https://example.com/page'' =
      js ''Proxying: https://example.com/page''"
    by (simp add: js_def)
  from r1 nb r2 show ?thesis
    unfolding b_def d_def p_def example_toolbar_def append_Cons append_Nil e by (intro conjI)
qed

section \<open>Properties of the attribute rules in the whole rewriter\<close>

text \<open>
  In the next three theorems \<open>d\<close> is the parsed document, \<open>out\<close> the tree the rewriter
  serializes, and \<open>p\<close> the path of an element of \<open>d\<close>; the same element of \<open>out\<close> is at the
  path \<open>shifted (length (toolbar ch b)) 0 d p\<close>, which differs from \<open>p\<close> only below a body
  element, where the toolbar nodes stand in front.

  Claim C5: for every element matching one of the fixed (tag, attribute) rules: if the
  attribute is absent, empty, begins with \<open>#\<close> or begins, in any letter case, with
  \<open>mailto:\<close>, \<open>tel:\<close> or \<open>javascript:\<close>, the attribute is left exactly as it is (with
  all other attributes of the element); otherwise it is overwritten with
  \<open>wrap(resolve(value, baseURL))\<close>, whose \<open>url\<close> parameter decodes to the resolved URL.
\<close>

theorem rewriter_attribute_rule:
  assumes "rewrite_tree ch nu d b = Inr out"
    and "node_at d p = Some (Element t as cs)"
    and "outside_style d p"
    and "(t, a) \<in> set attrTargets"
  shows "\<exists>as' cs'.
     node_at out (shifted (length (toolbar ch b)) 0 d p) = Some (Element t as' cs') \<and>
     (case attr_get as a of
        None \<Rightarrow> as' = as
      | Some v \<Rightarrow>
          if skipped v then as' = as
          else (\<exists>w. wrap (toAbsolute nu v b) = Inr w \<and> attr_get as' a = Some w \<and>
                  query_param (js ''url'') w = Some (Inr (toAbsolute nu v b))))"
proof -
  from rewrite_tree_at [OF assms(1-3)] map_of_attrTargets [OF assms(4)]
  obtain as' cs' where
    n: "node_at out (shifted (length (toolbar ch b)) 0 d p) = Some (Element t as' cs')"
    and r: "rewrite_attr nu b (t, a) as = Inr as'"
    by auto
  have "case attr_get as a of
        None \<Rightarrow> as' = as
      | Some v \<Rightarrow>
          if skipped v then as' = as
          else (\<exists>w. wrap (toAbsolute nu v b) = Inr w \<and> attr_get as' a = Some w \<and>
                  query_param (js ''url'') w = Some (Inr (toAbsolute nu v b)))"
  proof (cases "attr_get as a")
    case None
    then show ?thesis using r rewrite_attr_skip [of as a nu b t] by simp
  next
    case (Some v)
    show ?thesis
    proof (cases "skipped v")
      case True
      then show ?thesis using Some r rewrite_attr_skip [of as a nu b t] by simp
    next
      case False
      from rewrite_attr_rewrites [OF Some False r] obtain w where
        w: "wrap (toAbsolute nu v b) = Inr w" "attr_get as' a = Some w"
        by blast
      then show ?thesis using Some False wrap_query_param [OF w(1)] by simp
    qed
  qed
  with n show ?thesis by blast
qed

theorem rewriter_attribute_rule_witness:
  "rewrite_tree example_cheerio example_URL
     [Element (js ''body'') []
        [Element (js ''a'') [(js ''href'', js ''/x'')] [Text (js ''go'')],
         Element (js ''a'') [(js ''href'', js ''mailto:a@b.com'')] [Text (js ''mail'')]]]
     (js ''https://example.com/page'') =
   Inr [Element (js ''body'') []
          (example_toolbar (js ''https://example.com/page'') @
           [Element (js ''a'') [(js ''href'', js ''/api/proxy?url=https%3A%2F%2Fexample.com%2Fx'')]
              [Text (js ''go'')],
            Element (js ''a'') [(js ''href'', js ''mailto:a@b.com'')] [Text (js ''mail'')]])] \<and>
   (js ''a'', js ''href'') \<in> set attrTargets \<and>
   \<not> skipped (js ''/x'') \<and> skipped (js ''mailto:a@b.com'') \<and>
   query_param (js ''url'') (js ''/api/proxy?url=https%3A%2F%2Fexample.com%2Fx'') =
     Some (Inr (js ''https://example.com/x''))"
proof -
  define b where "b = js ''https://example.com/page''"
  define d where
    "d = [Element (js ''body'') []
        [Element (js ''a'') [(js ''href'', js ''/x'')] [Text (js ''go'')],
         Element (js ''a'') [(js ''href'', js ''mailto:a@b.com'')] [Text (js ''mail'')]]]"
  define out where
    "out = [Element (js ''body'') []
          (example_toolbar b @
           [Element (js ''a'') [(js ''href'', js ''/api/proxy?url=https%3A%2F%2Fexample.com%2Fx'')]
              [Text (js ''go'')],
            Element (js ''a'') [(js ''href'', js ''mailto:a@b.com'')] [Text (js ''mail'')]])]"
  have ne: "js ''a'' \<noteq> js ''body''" "js ''a'' \<noteq> js ''style''" "js ''body'' \<noteq> js ''style''"
    by (simp_all add: js_eq_iff)
  have tb: "toolbar example_cheerio b = example_toolbar b"
    unfolding b_def by (rule toolbar_example_page)
  have l: "length (example_toolbar b) = 5" by (simp add: example_toolbar_def)
  have a1: "rewrite_attrs example_URL b d =
      Inr [Element (js ''body'') []
        [Element (js ''a'') [(js ''href'', js ''/api/proxy?url=https%3A%2F%2Fexample.com%2Fx'')]
           [Text (js ''go'')],
         Element (js ''a'') [(js ''href'', js ''mailto:a@b.com'')] [Text (js ''mail'')]]]"
    unfolding d_def b_def by (simp add: eval_defs)
  have h1: "rewrite_tree example_cheerio example_URL d b = Inr out"
    unfolding rewrite_tree_def a1 tb by (simp add: out_def ne)
  have h2: "node_at d [0, 0] =
      Some (Element (js ''a'') [(js ''href'', js ''/x'')] [Text (js ''go'')])"
    by (simp add: d_def)
  have h3: "outside_style d [0, 0]" by (simp add: d_def ne)
  have h4: "(js ''a'', js ''href'') \<in> set attrTargets"
    by (simp add: attrTargets_def)
  have s1: "\<not> skipped (js ''/x'')" and s2: "skipped (js ''mailto:a@b.com'')"
    by (simp_all add: skipped_def startsWith_def toLowerCaseJs_def lower_cu_def js_def cu_def)
  have a: "toAbsolute example_URL (js ''/x'') b = js ''https://example.com/x''"
    by (simp add: toAbsolute_def example_URL_def b_def)
  have g: "attr_get [(js ''href'', js ''/x'')] (js ''href'') = Some (js ''/x'')"
    by (simp add: attr_get_def)
  have sh: "shifted (length (toolbar example_cheerio b)) 0 d [0, 0] = [0, 5]"
    unfolding tb l by (simp add: d_def)
  have n: "node_at out [0, 5] =
      Some (Element (js ''a'') [(js ''href'', js ''/api/proxy?url=https%3A%2F%2Fexample.com%2Fx'')]
              [Text (js ''go'')])"
    by (simp add: out_def example_toolbar_def)
  from rewriter_attribute_rule [OF h1 h2 h3 h4]
  have "query_param (js ''url'') (js ''/api/proxy?url=https%3A%2F%2Fexample.com%2Fx'') =
     Some (Inr (js ''https://example.com/x''))"
    unfolding sh n using a g s1 by (auto simp add: attr_get_def)
  with h1 h4 s1 s2 show ?thesis unfolding d_def out_def b_def by simp
qed

text \<open>
  Claim C6: given \<open><form action="/submit" method="POST">\<close>, after the rewriter has run the
  form's \<open>method\<close> is \<open>GET\<close> and the \<open>url\<close> parameter of its \<open>action\<close> decodes to
  \<open>/submit\<close> resolved against the base URL. It holds for every form whose action is
  \<open>/submit\<close>, whatever its other attributes.
\<close>

theorem rewriter_form_method_forced:
  assumes "rewrite_tree ch nu d b = Inr out"
    and "node_at d p = Some (Element (js ''form'') as cs)"
    and "outside_style d p"
    and "attr_get as (js ''action'') = Some (js ''/submit'')"
  shows "\<exists>as' cs' w.
     node_at out (shifted (length (toolbar ch b)) 0 d p) = Some (Element (js ''form'') as' cs') \<and>
     attr_get as' (js ''method'') = Some (js ''GET'') \<and>
     attr_get as' (js ''action'') = Some w \<and>
     wrap (toAbsolute nu (js ''/submit'') b) = Inr w \<and>
     query_param (js ''url'') w = Some (Inr (toAbsolute nu (js ''/submit'') b))"
proof -
  have t: "map_of attrTargets (js ''form'') = Some (js ''action'')"
    by (simp add: attrTargets_def js_eq_iff)
  from rewrite_tree_at [OF assms(1-3)] t obtain as' cs' where
    n: "node_at out (shifted (length (toolbar ch b)) 0 d p) = Some (Element (js ''form'') as' cs')"
    and r: "rewrite_attr nu b (js ''form'', js ''action'') as = Inr as'"
    by auto
  have s: "\<not> skipped (js ''/submit'')"
    by (simp add: skipped_def startsWith_def toLowerCaseJs_def lower_cu_def js_def cu_def)
  from rewrite_attr_rewrites [OF assms(4) s r] obtain w where
    w: "wrap (toAbsolute nu (js ''/submit'') b) = Inr w" "attr_get as' (js ''action'') = Some w"
      "\<forall>k. k \<noteq> js ''action'' \<longrightarrow> attr_get as' k =
        (if js ''form'' = js ''form'' \<and> k = js ''method'' then Some (js ''GET'') else attr_get as k)"
    by blast
  have "js ''method'' \<noteq> js ''action''" by (simp add: js_eq_iff)
  with w(3) have "attr_get as' (js ''method'') = Some (js ''GET'')" by simp
  with n w(1,2) wrap_query_param [OF w(1)] show ?thesis by blast
qed

theorem rewriter_form_method_forced_witness:
  "rewrite_tree example_cheerio example_URL
     [Element (js ''form'') [(js ''action'', js ''/submit''), (js ''method'', js ''POST'')] []]
     (js ''https://example.com/page'') =
   Inr [Element (js ''form'')
          [(js ''action'', js ''/api/proxy?url=https%3A%2F%2Fexample.com%2Fsubmit''),
           (js ''method'', js ''GET'')] []] \<and>
   query_param (js ''url'') (js ''/api/proxy?url=https%3A%2F%2Fexample.com%2Fsubmit'') =
     Some (Inr (js ''https://example.com/submit''))"
proof -
  define b where "b = js ''https://example.com/page''"
  define as where "as = [(js ''action'', js ''/submit''), (js ''method'', js ''POST'')]"
  define as' where
    "as' = [(js ''action'', js ''/api/proxy?url=https%3A%2F%2Fexample.com%2Fsubmit''),
            (js ''method'', js ''GET'')]"
  have ne: "js ''form'' \<noteq> js ''body''" "js ''form'' \<noteq> js ''style''"
    by (simp_all add: js_eq_iff)
  have a1: "rewrite_attrs example_URL b [Element (js ''form'') as []] =
      Inr [Element (js ''form'') as' []]"
    unfolding as_def as'_def b_def by (simp add: eval_defs)
  have h1: "rewrite_tree example_cheerio example_URL [Element (js ''form'') as []] b =
      Inr [Element (js ''form'') as' []]"
    unfolding rewrite_tree_def a1 by (simp add: ne)
  have h2: "node_at [Element (js ''form'') as []] [0] = Some (Element (js ''form'') as [])"
    by simp
  have h3: "outside_style [Element (js ''form'') as []] [0]" by simp
  have h4: "attr_get as (js ''action'') = Some (js ''/submit'')"
    by (simp add: as_def attr_get_def)
  have a: "toAbsolute example_URL (js ''/submit'') b = js ''https://example.com/submit''"
    by (simp add: toAbsolute_def example_URL_def js_def cu_def b_def)
  from rewriter_form_method_forced [OF h1 h2 h3 h4]
  have "query_param (js ''url'') (js ''/api/proxy?url=https%3A%2F%2Fexample.com%2Fsubmit'') =
     Some (Inr (js ''https://example.com/submit''))"
    using a by (auto simp add: as'_def attr_get_def)
  with h1 show ?thesis unfolding as_def as'_def b_def by simp
qed

text \<open>
  Claim C10: for every form whose \<open>action\<close> is absent, empty or in the skip set, the
  rewriter leaves the form's \<open>method\<close> unchanged (and every other attribute): a
  \<open><form method="POST">\<close> without action keeps \<open>POST\<close>.
\<close>

theorem rewriter_form_method_kept:
  assumes "rewrite_tree ch nu d b = Inr out"
    and "node_at d p = Some (Element (js ''form'') as cs)"
    and "outside_style d p"
    and "case attr_get as (js ''action'') of None \<Rightarrow> True | Some v \<Rightarrow> skipped v"
  shows "\<exists>as' cs'.
     node_at out (shifted (length (toolbar ch b)) 0 d p) = Some (Element (js ''form'') as' cs') \<and>
     as' = as \<and> attr_get as' (js ''method'') = attr_get as (js ''method'')"
proof -
  have t: "map_of attrTargets (js ''form'') = Some (js ''action'')"
    by (simp add: attrTargets_def js_eq_iff)
  from rewrite_tree_at [OF assms(1-3)] t obtain as' cs' where
    n: "node_at out (shifted (length (toolbar ch b)) 0 d p) = Some (Element (js ''form'') as' cs')"
    and r: "rewrite_attr nu b (js ''form'', js ''action'') as = Inr as'"
    by auto
  from r rewrite_attr_skip [OF assms(4), of nu b "js ''form''"] have "as' = as" by simp
  with n show ?thesis by simp
qed
theorem rewriter_form_method_kept_witness:
  "rewrite_tree example_cheerio example_URL
     [Element (js ''form'') [(js ''method'', js ''POST'')] [],
      Element (js ''form'') [(js ''action'', js ''#top''), (js ''method'', js ''POST'')] []]
     (js ''https://example.com/page'') =
   Inr [Element (js ''form'') [(js ''method'', js ''POST'')] [],
        Element (js ''form'') [(js ''action'', js ''#top''), (js ''method'', js ''POST'')] []] \<and>
   attr_get [(js ''method'', js ''POST'')] (js ''action'') = None \<and>
   attr_get [(js ''method'', js ''POST'')] (js ''method'') = Some (js ''POST'')"
proof -
  define b where "b = js ''https://example.com/page''"
  define d where
    "d = [Element (js ''form'') [(js ''method'', js ''POST'')] [],
          Element (js ''form'') [(js ''action'', js ''#top''), (js ''method'', js ''POST'')] []]"
  have ne: "js ''form'' \<noteq> js ''body''" "js ''form'' \<noteq> js ''style''"
    by (simp_all add: js_eq_iff)
  have a1: "rewrite_attrs example_URL b d = Inr d"
    unfolding d_def b_def by (simp add: eval_defs)
  have h1: "rewrite_tree example_cheerio example_URL d b = Inr d"
    unfolding rewrite_tree_def a1 by (simp add: d_def ne)
  have h2: "node_at d [0] = Some (Element (js ''form'') [(js ''method'', js ''POST'')] [])"
    by (simp add: d_def)
  have h3: "outside_style d [0]" by simp
  have g: "attr_get [(js ''method'', js ''POST'')] (js ''action'') = None"
    by (simp add: attr_get_def js_def cu_def)
  then have h4: "case attr_get [(js ''method'', js ''POST'')] (js ''action'') of
      None \<Rightarrow> True | Some v \<Rightarrow> skipped v"
    by simp
  from rewriter_form_method_kept [OF h1 h2 h3 h4]
  have "attr_get [(js ''method'', js ''POST'')] (js ''method'') = Some (js ''POST'')"
    by (auto simp add: attr_get_def)
  with h1 g show ?thesis unfolding d_def b_def by simp
qed

section \<open>Properties of the style pass in the whole rewriter\<close>

text \<open>
  Claim C7: for every \<open>url(...)\<close> occurrence inside an inline style block, the capture
  being the content up to the first closing parenthesis: the rewriter strips surrounding
  quotes from the captured content, leaves the occurrence unchanged if the content begins
  with \<open>data:\<close>, and otherwise replaces the occurrence with \<open>url(\<close>,
  \<open>wrap(resolve(content, baseURL))\<close> and \<open>)\<close>.

  This fails where white space stands around the capture: the code removes it before it
  strips the quotes (line 59). In \<open>url( data:x)\<close> the capture is \<open>data:x\<close> with a space
  in front. It has no quote at either end and does not begin with \<open>data:\<close>, so by the
  claim the occurrence is replaced with a wrapped path. The code reads the content
  \<open>data:x\<close> and leaves the occurrence as it is.
\<close>

theorem style_url_space_before_data:
  "url_match (js ''url( data:x)'') = Some (js '' data:x'', []) \<and>
   strip_quotes (js '' data:x'') = js '' data:x'' \<and>
   \<not> startsWith (js '' data:x'') (js ''data:'') \<and>
   rewrite_tree example_cheerio example_URL
     [Element (js ''html'') []
        [Element (js ''head'') []
           [Element (js ''style'') [] [Text (js ''.a{background:url( data:x)}'')]],
         Element (js ''body'') [] []]]
     (js ''https://example.com/'') =
   Inr [Element (js ''html'') []
          [Element (js ''head'') []
             [Element (js ''style'') [] [Text (js ''.a{background:url( data:x)}'')]],
           Element (js ''body'') [] (example_toolbar (js ''https://example.com/''))]]"
proof -
  define b where "b = js ''https://example.com/''"
  define css where "css = js ''.a{background:url( data:x)}''"
  define d where
    "d = [Element (js ''html'') []
        [Element (js ''head'') [] [Element (js ''style'') [] [Text css]],
         Element (js ''body'') [] []]]"
  have ne: "js ''html'' \<noteq> js ''body''" "js ''html'' \<noteq> js ''style''" "js ''body'' \<noteq> js ''style''"
    "js ''head'' \<noteq> js ''body''" "js ''head'' \<noteq> js ''style''" "js ''style'' \<noteq> js ''body''"
    by (simp_all add: js_eq_iff)
  have m: "url_match (js ''url( data:x)'') = Some (js '' data:x'', [])"
    by (simp add: url_match_def startsWith_def js_def cu_def)
  have q: "strip_quotes (js '' data:x'') = js '' data:x''"
    by (simp add: strip_quotes_def is_quote_def js_def cu_def)
  have nd: "\<not> startsWith (js '' data:x'') (js ''data:'')"
    by (simp add: startsWith_def js_def cu_def)
  have c: "css_replace example_URL b css = Inr css"
    unfolding css_def
    by (simp add: url_match_def url_callback_def startsWith_def trim_def js_whitespace_def
        strip_quotes_def is_quote_def js_def cu_def)
  have ncss: "css \<noteq> []" by (simp add: css_def js_def)
  have rd: "render example_cheerio (Some (js ''style'')) [Text css] = css"
    by (simp add: example_cheerio_def raw_text_elements_def)
  have pf: "parse_fragment example_cheerio (Some (js ''style'')) css = [Text css]"
    using ncss by (simp add: example_cheerio_def)
  have a1: "rewrite_attrs example_URL b d = Inr d"
    by (simp add: d_def rewrite_attrs_def attrTargets_def js_eq_iff)
  have s1: "style_nodes example_cheerio example_URL b d = Inr d"
    by (simp add: d_def ne rd c pf)
  have tb: "toolbar example_cheerio b = example_toolbar b"
    unfolding b_def by (rule toolbar_example_root)
  have "rewrite_tree example_cheerio example_URL d b = Inr (prepend_nodes (example_toolbar b) d)"
    by (simp add: rewrite_tree_def a1 s1 tb)
  also have "prepend_nodes (example_toolbar b) d =
      [Element (js ''html'') []
         [Element (js ''head'') [] [Element (js ''style'') [] [Text css]],
          Element (js ''body'') [] (example_toolbar b)]]"
    by (simp add: d_def ne)
  finally have "rewrite_tree example_cheerio example_URL d b =
      Inr [Element (js ''html'') []
             [Element (js ''head'') [] [Element (js ''style'') [] [Text css]],
              Element (js ''body'') [] (example_toolbar b)]]" .
  with m q nd show ?thesis unfolding d_def css_def b_def by (intro conjI)
qed

text \<open>
  Claim C7, amended: for every \<open>url(...)\<close> occurrence inside an inline style block, the
  capture being the content up to the first closing parenthesis: the rewriter removes the
  white space around the captured content and then strips the surrounding quotes, leaves
  the occurrence unchanged if the content begins with \<open>data:\<close>, and otherwise replaces
  the occurrence with \<open>url(\<close>, \<open>wrap(resolve(content, baseURL))\<close> and \<open>)\<close>.

  The style element stands at the path \<open>p\<close> of the parsed document and holds text, which
  reads \<open>pre\<close>, the occurrence, \<open>post\<close>; the scan arrives at the occurrence, which
  may be the first of the text or a later one. The capture \<open>p1\<close> is white space, a quote
  or none, the content, a quote or none, white space: all the white space at both ends, and
  the quote wherever one stands next to it (every capture reads so, lemma
  \<open>capture_parts\<close>). In the output the element holds the parse of the new text: what
  the scan has made of \<open>pre\<close>, the occurrence as it was or rewritten, and what the scan
  makes of \<open>post\<close>. The \<open>url\<close> parameter of the wrapped path decodes to the resolved
  URL.
\<close>

theorem style_url_occurrence:
  assumes "rewrite_tree ch nu d b = Inr out"
    and "node_at d p = Some (Element (js ''style'') as cs)"
    and "outside_style d p"
    and "list_all is_text cs"
    and "\<forall>r. select (js ''body'') (parse_fragment ch (Some (js ''style'')) r) = []"
    and "render ch (Some (js ''style'')) cs = pre @ js ''url('' @ p1 @ js '')'' @ post"
    and "p1 \<noteq> []" and "cu CHR '')'' \<notin> set p1"
    and "scan_reaches (pre @ js ''url('' @ p1 @ js '')'' @ post) (length pre)"
    and "p1 = ws1 @ lq @ content @ rq @ ws2"
    and "\<forall>c\<in>set ws1 \<union> set ws2. js_whitespace c"
    and "lq \<in> {[], [0x22], [0x27]}" and "rq \<in> {[], [0x22], [0x27]}"
    and "lq @ content @ rq \<noteq> [] \<longrightarrow>
           \<not> js_whitespace (hd (lq @ content @ rq)) \<and> \<not> js_whitespace (last (lq @ content @ rq))"
    and "lq = [] \<and> content @ rq \<noteq> [] \<longrightarrow> hd (content @ rq) \<notin> {0x22, 0x27}"
    and "rq = [] \<and> content \<noteq> [] \<longrightarrow> last content \<notin> {0x22, 0x27}"
  shows "\<exists>rpre rep r.
     css_replace nu b pre = Inr rpre \<and>
     (if startsWith content (js ''data:'') then rep = js ''url('' @ p1 @ js '')''
      else \<exists>w. wrap (toAbsolute nu content b) = Inr w \<and> rep = js ''url('' @ w @ js '')'' \<and>
             query_param (js ''url'') w = Some (Inr (toAbsolute nu content b))) \<and>
     css_replace nu b post = Inr r \<and>
     node_at out (shifted (length (toolbar ch b)) 0 d p) =
       Some (Element (js ''style'') as (parse_fragment ch (Some (js ''style'')) (rpre @ rep @ r)))"
proof -
  from rewrite_tree_style [OF assms(1-4)] obtain r0 where
    r0: "css_replace nu b (render ch (Some (js ''style'')) cs) = Inr r0"
    and n: "node_at out (shifted (length (toolbar ch b)) 0 d p) =
       Some (Element (js ''style'') as
              (prepend_nodes (toolbar ch b) (parse_fragment ch (Some (js ''style'')) r0)))"
    by blast
  have "prepend_nodes (toolbar ch b) (parse_fragment ch (Some (js ''style'')) r0) =
      parse_fragment ch (Some (js ''style'')) r0"
    using assms(5) by (intro prepend_nodes_no_body) simp
  with n have n': "node_at out (shifted (length (toolbar ch b)) 0 d p) =
       Some (Element (js ''style'') as (parse_fragment ch (Some (js ''style'')) r0))"
    by simp
  have raw: "strip_quotes (trim p1) = content"
    unfolding assms(10) using assms(11-16) by (rule capture_content)
  note occ = css_replace_reached [OF assms(7-9), of nu b, unfolded raw Let_def]
  from r0 have e: "css_replace nu b (pre @ js ''url('' @ p1 @ js '')'' @ post) = Inr r0"
    unfolding assms(6) .
  show ?thesis
  proof (cases "startsWith content (js ''data:'')")
    case True
    with occ e obtain rpre r where "css_replace nu b pre = Inr rpre" "css_replace nu b post = Inr r"
      "r0 = rpre @ js ''url('' @ p1 @ js '')'' @ r"
      by (auto split: sum.splits)
    with n' True show ?thesis by auto
  next
    case False
    with occ e obtain rpre w r where rp: "css_replace nu b pre = Inr rpre"
      and w: "wrap (toAbsolute nu content b) = Inr w"
      and r: "css_replace nu b post = Inr r" "r0 = rpre @ js ''url('' @ w @ js '')'' @ r"
      by (auto split: sum.splits)
    from wrap_query_param [OF w] rp w r n' False show ?thesis by auto
  qed
qed

theorem style_url_occurrence_witness:
  \<open>rewrite_tree example_cheerio example_URL
     [Element (js ''html'') []
        [Element (js ''head'') []
           [Element (js ''style'') [] [Text (js ''.a{background:url(data:x)}.b{background:url( "/img.png"\<newline>)}'')]],
         Element (js ''body'') [] []]]
     (js ''https://example.com/'') =
   Inr [Element (js ''html'') []
          [Element (js ''head'') []
             [Element (js ''style'') []
                [Text (js ''.a{background:url(data:x)}.b{background:url(/api/proxy?url=https%3A%2F%2Fexample.com%2Fimg.png)}'')]],
           Element (js ''body'') [] (example_toolbar (js ''https://example.com/''))]] \<and>
   js '' "/img.png"\<newline>'' = js '' '' @ [0x22] @ js ''/img.png'' @ [0x22] @ js ''\<newline>'' \<and>
   toAbsolute example_URL (js ''/img.png'') (js ''https://example.com/'') =
     js ''https://example.com/img.png'' \<and>
   query_param (js ''url'') (js ''/api/proxy?url=https%3A%2F%2Fexample.com%2Fimg.png'') =
     Some (Inr (js ''https://example.com/img.png'')) \<and>
   css_replace example_URL (js ''https://example.com/'') (js ''.a{background:url(/img.png)}'') =
     Inr (js ''.a{background:url(/api/proxy?url=https%3A%2F%2Fexample.com%2Fimg.png)}'')\<close>
proof -
  define b where "b = js ''https://example.com/''"
  define css where \<open>css = js ''.a{background:url(data:x)}.b{background:url( "/img.png"\<newline>)}''\<close>
  define css' where
    "css' = js ''.a{background:url(data:x)}.b{background:url(/api/proxy?url=https%3A%2F%2Fexample.com%2Fimg.png)}''"
  define css0 where
    "css0 = js ''.a{background:url(/api/proxy?url=https%3A%2F%2Fexample.com%2Fimg.png)}''"
  define pre where "pre = js ''.a{background:url(data:x)}.b{background:''"
  define p1 where \<open>p1 = js '' "/img.png"\<newline>''\<close>
  define d where
    "d = [Element (js ''html'') []
        [Element (js ''head'') [] [Element (js ''style'') [] [Text css]],
         Element (js ''body'') [] []]]"
  define out where
    "out = [Element (js ''html'') []
        [Element (js ''head'') [] [Element (js ''style'') [] [Text css']],
         Element (js ''body'') [] (example_toolbar b)]]"
  have ne: "js ''html'' \<noteq> js ''body''" "js ''html'' \<noteq> js ''style''" "js ''body'' \<noteq> js ''style''"
    "js ''head'' \<noteq> js ''body''" "js ''head'' \<noteq> js ''style''" "js ''style'' \<noteq> js ''body''"
    by (simp_all add: js_eq_iff)
  have w: "wrap (toAbsolute example_URL (js ''/img.png'') b) =
      Inr (js ''/api/proxy?url=https%3A%2F%2Fexample.com%2Fimg.png'')"
    unfolding b_def
    by (simp add: toAbsolute_def example_URL_def wrap_def uriUnescaped_def is_lead_def is_trail_def
        utf8_encode_def pct_def pct_octet_def hex_digit_def js_def cu_def)
  have ab: "toAbsolute example_URL (js ''/img.png'') b = js ''https://example.com/img.png''"
    by (simp add: toAbsolute_def example_URL_def b_def js_eq_iff)
  have c: "css_replace example_URL b css = Inr css'"
    unfolding css_def css'_def b_def
    by (simp add: url_match_def url_callback_def startsWith_def trim_def js_whitespace_def
        strip_quotes_def is_quote_def toAbsolute_def example_URL_def wrap_def uriUnescaped_def
        is_lead_def is_trail_def utf8_encode_def pct_def pct_octet_def hex_digit_def js_def cu_def)
  have c0: "css_replace example_URL b (js ''.a{background:url(/img.png)}'') = Inr css0"
    unfolding css0_def b_def
    by (simp add: url_match_def url_callback_def startsWith_def trim_def js_whitespace_def
        strip_quotes_def is_quote_def toAbsolute_def example_URL_def wrap_def uriUnescaped_def
        is_lead_def is_trail_def utf8_encode_def pct_def pct_octet_def hex_digit_def js_def cu_def)
  have ncss: "css' \<noteq> []" by (simp add: css'_def js_def)
  have rd: "render example_cheerio (Some (js ''style'')) [Text css] = css"
    by (simp add: example_cheerio_def raw_text_elements_def)
  have pf: "parse_fragment example_cheerio (Some (js ''style'')) css' = [Text css']"
    using ncss by (simp add: example_cheerio_def)
  have a1: "rewrite_attrs example_URL b d = Inr d"
    by (simp add: d_def rewrite_attrs_def attrTargets_def js_eq_iff)
  define d2 where
    "d2 = [Element (js ''html'') []
        [Element (js ''head'') [] [Element (js ''style'') [] [Text css']],
         Element (js ''body'') [] []]]"
  have s1: "style_nodes example_cheerio example_URL b d = Inr d2"
    by (simp add: d_def d2_def ne rd c pf)
  have tb: "toolbar example_cheerio b = example_toolbar b"
    unfolding b_def by (rule toolbar_example_root)
  have "rewrite_tree example_cheerio example_URL d b = Inr (prepend_nodes (example_toolbar b) d2)"
    by (simp add: rewrite_tree_def a1 s1 tb)
  also have "prepend_nodes (example_toolbar b) d2 = out"
    by (simp add: d2_def out_def ne)
  finally have h1: "rewrite_tree example_cheerio example_URL d b = Inr out" .
  have h2: "node_at d [0, 0, 0] = Some (Element (js ''style'') [] [Text css])"
    by (simp add: d_def)
  have h3: "outside_style d [0, 0, 0]" by (simp add: d_def ne)
  have h4: "list_all is_text [Text css]" by simp
  have h5: "\<forall>r. select (js ''body'') (parse_fragment example_cheerio (Some (js ''style'')) r) = []"
    by (simp add: example_cheerio_def)
  have h6: "render example_cheerio (Some (js ''style'')) [Text css] =
      pre @ js ''url('' @ p1 @ js '')'' @ js ''}''"
    unfolding rd by (simp add: css_def pre_def p1_def js_def)
  have h7: "p1 \<noteq> []" by (simp add: p1_def js_def)
  have h8: "cu CHR '')'' \<notin> set p1" by (simp add: p1_def js_def cu_def)
  have h9: "scan_reaches (pre @ js ''url('' @ p1 @ js '')'' @ js ''}'') (length pre)"
    by (simp add: pre_def p1_def js_def cu_def url_match_def startsWith_def)
  have h10: "p1 = js '' '' @ [0x22] @ js ''/img.png'' @ [0x22] @ js ''\<newline>''"
    by (simp add: p1_def js_def cu_def)
  have h11: "\<forall>c\<in>set (js '' '') \<union> set (js ''\<newline>''). js_whitespace c"
    by (simp add: js_whitespace_def js_def cu_def)
  have h12: "[0x22] \<in> {[], [0x22], [0x27 :: 16 word]}" by simp
  have h14: "[0x22] @ js ''/img.png'' @ [0x22] \<noteq> [] \<longrightarrow>
      \<not> js_whitespace (hd ([0x22] @ js ''/img.png'' @ [0x22])) \<and>
      \<not> js_whitespace (last ([0x22] @ js ''/img.png'' @ [0x22]))"
    by (simp add: js_whitespace_def)
  have h15: "[0x22 :: 16 word] = [] \<and> js ''/img.png'' @ [0x22] \<noteq> [] \<longrightarrow>
      hd (js ''/img.png'' @ [0x22]) \<notin> {0x22, 0x27}"
    by simp
  have h16: "[0x22 :: 16 word] = [] \<and> js ''/img.png'' \<noteq> [] \<longrightarrow>
      last (js ''/img.png'') \<notin> {0x22, 0x27}"
    by simp
  have nd: "\<not> startsWith (js ''/img.png'') (js ''data:'')"
    by (simp add: startsWith_def js_def cu_def)
  from style_url_occurrence [OF h1 h2 h3 h4 h5 h6 h7 h8 h9 h10 h11 h12 h12 h14 h15 h16]
  have "query_param (js ''url'') (js ''/api/proxy?url=https%3A%2F%2Fexample.com%2Fimg.png'') =
     Some (Inr (js ''https://example.com/img.png''))"
    using nd w ab by auto
  with h1 h10 ab c0 show ?thesis
    unfolding d_def out_def css_def css'_def css0_def b_def p1_def by (intro conjI)
qed

section \<open>Unresolvable references\<close>

text \<open>
  Claim C8: when no valid URL can be constructed from a reference and the base, \<open>resolve\<close>
  returns the reference unchanged and does not raise; consequently the one unresolvable
  reference is left unmodified and the rest of the document is still rewritten.

  The first half holds (\<open>toAbsolute\<close> has no error result). In the consequence, the
  reference is not left unmodified: the rewriter wraps whatever \<open>toAbsolute\<close> returns, so
  the unresolved reference is overwritten like any other. And since it is wrapped as it
  stands, an unresolvable reference that holds an unpaired surrogate makes
  \<open>encodeURIComponent\<close> throw, and nothing of the document is rewritten.
\<close>

theorem unresolvable_reference_rewritten:
  "example_URL (js ''http://'') (js ''https://example.com/page'') = None \<and>
   toAbsolute example_URL (js ''http://'') (js ''https://example.com/page'') = js ''http://'' \<and>
   rewrite_tree example_cheerio example_URL
     [Element (js ''html'') []
        [Element (js ''head'') [] [],
         Element (js ''body'') []
           [Element (js ''a'') [(js ''href'', js ''http://'')] [Text (js ''bad'')],
            Element (js ''a'') [(js ''href'', js ''/x'')] [Text (js ''go'')]]]]
     (js ''https://example.com/page'') =
   Inr [Element (js ''html'') []
          [Element (js ''head'') [] [],
           Element (js ''body'') []
             (example_toolbar (js ''https://example.com/page'') @
              [Element (js ''a'') [(js ''href'', js ''/api/proxy?url=http%3A%2F%2F'')]
                 [Text (js ''bad'')],
               Element (js ''a'') [(js ''href'', js ''/api/proxy?url=https%3A%2F%2Fexample.com%2Fx'')]
                 [Text (js ''go'')]])]] \<and>
   example_URL (js ''http://['' @ [0xD800]) (js ''https://example.com/page'') = None \<and>
   rewrite_tree example_cheerio example_URL
     [Element (js ''html'') []
        [Element (js ''head'') [] [],
         Element (js ''body'') []
           [Element (js ''a'') [(js ''href'', js ''http://['' @ [0xD800])] [Text (js ''bad'')],
            Element (js ''a'') [(js ''href'', js ''/x'')] [Text (js ''go'')]]]]
     (js ''https://example.com/page'') =
   Inl URIError"
proof -
  define b where "b = js ''https://example.com/page''"
  have ne: "js ''html'' \<noteq> js ''body''" "js ''html'' \<noteq> js ''style''" "js ''body'' \<noteq> js ''style''"
    "js ''head'' \<noteq> js ''body''" "js ''head'' \<noteq> js ''style''" "js ''a'' \<noteq> js ''body''"
    "js ''a'' \<noteq> js ''style''"
    by (simp_all add: js_eq_iff)
  have n: "example_URL (js ''http://'') b = None"
    by (simp add: example_URL_def b_def js_def cu_def)
  then have ab: "toAbsolute example_URL (js ''http://'') b = js ''http://''"
    by (simp add: toAbsolute_def)
  have a1: "rewrite_attrs example_URL b
     [Element (js ''html'') []
        [Element (js ''head'') [] [],
         Element (js ''body'') []
           [Element (js ''a'') [(js ''href'', js ''http://'')] [Text (js ''bad'')],
            Element (js ''a'') [(js ''href'', js ''/x'')] [Text (js ''go'')]]]] =
     Inr [Element (js ''html'') []
        [Element (js ''head'') [] [],
         Element (js ''body'') []
           [Element (js ''a'') [(js ''href'', js ''/api/proxy?url=http%3A%2F%2F'')] [Text (js ''bad'')],
            Element (js ''a'') [(js ''href'', js ''/api/proxy?url=https%3A%2F%2Fexample.com%2Fx'')]
              [Text (js ''go'')]]]]"
    unfolding b_def by (simp add: eval_defs)
  have tb: "toolbar example_cheerio b = example_toolbar b"
    unfolding b_def by (rule toolbar_example_page)
  have "rewrite_tree example_cheerio example_URL
     [Element (js ''html'') []
        [Element (js ''head'') [] [],
         Element (js ''body'') []
           [Element (js ''a'') [(js ''href'', js ''http://'')] [Text (js ''bad'')],
            Element (js ''a'') [(js ''href'', js ''/x'')] [Text (js ''go'')]]]] b =
     Inr [Element (js ''html'') []
          [Element (js ''head'') [] [],
           Element (js ''body'') []
             (example_toolbar b @
              [Element (js ''a'') [(js ''href'', js ''/api/proxy?url=http%3A%2F%2F'')]
                 [Text (js ''bad'')],
               Element (js ''a'') [(js ''href'', js ''/api/proxy?url=https%3A%2F%2Fexample.com%2Fx'')]
                 [Text (js ''go'')]])]]"
    unfolding rewrite_tree_def a1 tb by (simp add: ne)
  moreover have n': "example_URL (js ''http://['' @ [0xD800]) b = None"
    by (simp add: example_URL_def b_def js_def cu_def)
  moreover have "rewrite_attrs example_URL b
     [Element (js ''html'') []
        [Element (js ''head'') [] [],
         Element (js ''body'') []
           [Element (js ''a'') [(js ''href'', js ''http://['' @ [0xD800])] [Text (js ''bad'')],
            Element (js ''a'') [(js ''href'', js ''/x'')] [Text (js ''go'')]]]] =
     Inl URIError"
    unfolding b_def by (simp add: eval_defs)
  then have "rewrite_tree example_cheerio example_URL
     [Element (js ''html'') []
        [Element (js ''head'') [] [],
         Element (js ''body'') []
           [Element (js ''a'') [(js ''href'', js ''http://['' @ [0xD800])] [Text (js ''bad'')],
            Element (js ''a'') [(js ''href'', js ''/x'')] [Text (js ''go'')]]]] b =
     Inl URIError"
    by (simp add: rewrite_tree_def)
  ultimately show ?thesis using n ab unfolding b_def by (intro conjI)
qed

text \<open>
  Claim C8, amended: when no valid URL can be constructed from a reference and the base,
  \<open>resolve\<close> returns the reference unchanged and does not raise; consequently, in a
  document whose strings hold no unpaired surrogate, a single unresolvable reference is
  overwritten with \<open>wrap\<close> of its own text, and the rest of the document is still
  rewritten.

  \<open>v\<close> is the unresolvable reference and \<open>d\<close> any parsed document without unpaired
  surrogates. The rewriter returns. In its output every element that matches a rule has
  been rewritten by the rule, with \<open>wrap\<close> of \<open>v\<close>, which differs from \<open>v\<close>, where the
  attribute is \<open>v\<close>; every style element holds the parse of its rewritten text; and where
  the content of an occurrence \<open>url(...)\<close> the scan reaches is \<open>v\<close>, the occurrence is
  replaced with \<open>url(\<close>, \<open>wrap\<close> of \<open>v\<close> and \<open>)\<close>.
\<close>

theorem unresolvable_reference:
  assumes "nu v b = None"
    and "wellformed_nodes d" and "wellformed_styles ch d"
    and "\<forall>r. select (js ''body'') (parse_fragment ch (Some (js ''style'')) r) = []"
  shows "toAbsolute nu v b = v \<and>
    (\<exists>out. rewrite_tree ch nu d b = Inr out \<and>
       (\<forall>p t a as cs.
          node_at d p = Some (Element t as cs) \<and> outside_style d p \<and> (t, a) \<in> set attrTargets \<longrightarrow>
            (\<exists>as' cs'.
               node_at out (shifted (length (toolbar ch b)) 0 d p) = Some (Element t as' cs') \<and>
               (case attr_get as a of
                  None \<Rightarrow> as' = as
                | Some u \<Rightarrow>
                    if skipped u then as' = as
                    else \<exists>w. wrap (toAbsolute nu u b) = Inr w \<and> attr_get as' a = Some w \<and>
                           (u = v \<longrightarrow> wrap v = Inr w \<and> w \<noteq> v)))) \<and>
       (\<forall>p as cs.
          node_at d p = Some (Element (js ''style'') as cs) \<and> outside_style d p \<longrightarrow>
            (\<exists>r. css_replace nu b (render ch (Some (js ''style'')) cs) = Inr r \<and>
               node_at out (shifted (length (toolbar ch b)) 0 d p) =
                 Some (Element (js ''style'') as (parse_fragment ch (Some (js ''style'')) r)))) \<and>
       (\<forall>p as cs pre p1 post.
          node_at d p = Some (Element (js ''style'') as cs) \<and> outside_style d p \<and>
          render ch (Some (js ''style'')) cs = pre @ js ''url('' @ p1 @ js '')'' @ post \<and>
          p1 \<noteq> [] \<and> cu CHR '')'' \<notin> set p1 \<and>
          scan_reaches (pre @ js ''url('' @ p1 @ js '')'' @ post) (length pre) \<and>
          strip_quotes (trim p1) = v \<and> \<not> startsWith v (js ''data:'') \<longrightarrow>
            (\<exists>rpre w r. css_replace nu b pre = Inr rpre \<and> wrap v = Inr w \<and> w \<noteq> v \<and>
               css_replace nu b post = Inr r \<and>
               node_at out (shifted (length (toolbar ch b)) 0 d p) =
                 Some (Element (js ''style'') as
                        (parse_fragment ch (Some (js ''style'')) (rpre @ js ''url('' @ w @ js '')'' @ r))))))"
proof -
  have abs: "toAbsolute nu v b = v" using assms(1) by (rule toAbsolute_unresolved)
  from rewrite_tree_total [OF assms(2,3)] obtain out where out: "rewrite_tree ch nu d b = Inr out"
    by blast
  have attr: "\<exists>as' cs'.
       node_at out (shifted (length (toolbar ch b)) 0 d p) = Some (Element t as' cs') \<and>
       (case attr_get as a of
          None \<Rightarrow> as' = as
        | Some u \<Rightarrow>
            if skipped u then as' = as
            else \<exists>w. wrap (toAbsolute nu u b) = Inr w \<and> attr_get as' a = Some w \<and>
                   (u = v \<longrightarrow> wrap v = Inr w \<and> w \<noteq> v))"
    if h: "node_at d p = Some (Element t as cs)" "outside_style d p" "(t, a) \<in> set attrTargets"
    for p t a as cs
  proof -
    from rewrite_tree_at [OF out h(1,2)] map_of_attrTargets [OF h(3)]
    obtain as' cs' where
      n: "node_at out (shifted (length (toolbar ch b)) 0 d p) = Some (Element t as' cs')"
      and r: "rewrite_attr nu b (t, a) as = Inr as'"
      by auto
    have "case attr_get as a of
          None \<Rightarrow> as' = as
        | Some u \<Rightarrow>
            if skipped u then as' = as
            else \<exists>w. wrap (toAbsolute nu u b) = Inr w \<and> attr_get as' a = Some w \<and>
                   (u = v \<longrightarrow> wrap v = Inr w \<and> w \<noteq> v)"
    proof (cases "attr_get as a")
      case None
      then show ?thesis using r rewrite_attr_skip [of as a nu b t] by simp
    next
      case (Some u)
      show ?thesis
      proof (cases "skipped u")
        case True
        then show ?thesis using Some r rewrite_attr_skip [of as a nu b t] by simp
      next
        case False
        from rewrite_attr_rewrites [OF Some False r] obtain w where
          w: "wrap (toAbsolute nu u b) = Inr w" "attr_get as' a = Some w"
          by blast
        have "wrap v = Inr w \<and> w \<noteq> v" if "u = v"
          using w(1) wrap_differs [of v w] abs that by simp
        then show ?thesis using Some False w by auto
      qed
    qed
    with n show ?thesis by blast
  qed
  have style: "\<exists>r. css_replace nu b (render ch (Some (js ''style'')) cs) = Inr r \<and>
       node_at out (shifted (length (toolbar ch b)) 0 d p) =
         Some (Element (js ''style'') as (parse_fragment ch (Some (js ''style'')) r))"
    if h: "node_at d p = Some (Element (js ''style'') as cs)" "outside_style d p"
    for p as cs
  proof -
    from wellformed_styles_at [OF assms(3) h] have tx: "list_all is_text cs" by simp
    from rewrite_tree_style [OF out h tx] obtain r where
      r: "css_replace nu b (render ch (Some (js ''style'')) cs) = Inr r"
      and n: "node_at out (shifted (length (toolbar ch b)) 0 d p) =
         Some (Element (js ''style'') as
                (prepend_nodes (toolbar ch b) (parse_fragment ch (Some (js ''style'')) r)))"
      by blast
    have "prepend_nodes (toolbar ch b) (parse_fragment ch (Some (js ''style'')) r) =
        parse_fragment ch (Some (js ''style'')) r"
      using assms(4) by (intro prepend_nodes_no_body) simp
    with r n show ?thesis by auto
  qed
  have occ: "\<exists>rpre w r. css_replace nu b pre = Inr rpre \<and> wrap v = Inr w \<and> w \<noteq> v \<and>
       css_replace nu b post = Inr r \<and>
       node_at out (shifted (length (toolbar ch b)) 0 d p) =
         Some (Element (js ''style'') as
                (parse_fragment ch (Some (js ''style'')) (rpre @ js ''url('' @ w @ js '')'' @ r)))"
    if h: "node_at d p = Some (Element (js ''style'') as cs)" "outside_style d p"
      and t: "render ch (Some (js ''style'')) cs = pre @ js ''url('' @ p1 @ js '')'' @ post"
      and m: "p1 \<noteq> []" "cu CHR '')'' \<notin> set p1"
        "scan_reaches (pre @ js ''url('' @ p1 @ js '')'' @ post) (length pre)"
      and c: "strip_quotes (trim p1) = v" "\<not> startsWith v (js ''data:'')"
    for p as cs pre p1 post
  proof -
    from style [OF h] obtain r0 where
      r0: "css_replace nu b (pre @ js ''url('' @ p1 @ js '')'' @ post) = Inr r0"
      and n: "node_at out (shifted (length (toolbar ch b)) 0 d p) =
         Some (Element (js ''style'') as (parse_fragment ch (Some (js ''style'')) r0))"
      unfolding t by blast
    note o = css_replace_reached [OF m, of nu b, unfolded c(1) Let_def abs]
    from o r0 c(2) obtain rpre w r where rp: "css_replace nu b pre = Inr rpre"
      and w: "wrap v = Inr w"
      and r: "css_replace nu b post = Inr r" "r0 = rpre @ js ''url('' @ w @ js '')'' @ r"
      by (auto split: sum.splits)
    from wrap_differs [OF w] rp w r n show ?thesis by auto
  qed
  from abs out attr style occ show ?thesis by blast
qed

theorem unresolvable_reference_witness:
  "example_URL (js ''http://'') (js ''https://example.com/page'') = None \<and>
   wellformed_nodes
     [Element (js ''html'') []
        [Element (js ''head'') []
           [Element (js ''style'') [] [Text (js ''.a{background:url(http://)}'')]],
         Element (js ''body'') []
           [Element (js ''a'') [(js ''href'', js ''http://'')] [Text (js ''bad'')],
            Element (js ''a'') [(js ''href'', js ''/x'')] [Text (js ''go'')]]]] \<and>
   wellformed_styles example_cheerio
     [Element (js ''html'') []
        [Element (js ''head'') []
           [Element (js ''style'') [] [Text (js ''.a{background:url(http://)}'')]],
         Element (js ''body'') []
           [Element (js ''a'') [(js ''href'', js ''http://'')] [Text (js ''bad'')],
            Element (js ''a'') [(js ''href'', js ''/x'')] [Text (js ''go'')]]]] \<and>
   toAbsolute example_URL (js ''http://'') (js ''https://example.com/page'') = js ''http://'' \<and>
   rewrite_tree example_cheerio example_URL
     [Element (js ''html'') []
        [Element (js ''head'') []
           [Element (js ''style'') [] [Text (js ''.a{background:url(http://)}'')]],
         Element (js ''body'') []
           [Element (js ''a'') [(js ''href'', js ''http://'')] [Text (js ''bad'')],
            Element (js ''a'') [(js ''href'', js ''/x'')] [Text (js ''go'')]]]]
     (js ''https://example.com/page'') =
   Inr [Element (js ''html'') []
          [Element (js ''head'') []
             [Element (js ''style'') []
                [Text (js ''.a{background:url(/api/proxy?url=http%3A%2F%2F)}'')]],
           Element (js ''body'') []
             (example_toolbar (js ''https://example.com/page'') @
              [Element (js ''a'') [(js ''href'', js ''/api/proxy?url=http%3A%2F%2F'')]
                 [Text (js ''bad'')],
               Element (js ''a'') [(js ''href'', js ''/api/proxy?url=https%3A%2F%2Fexample.com%2Fx'')]
                 [Text (js ''go'')]])]]"
proof -
  define b where "b = js ''https://example.com/page''"
  define css where "css = js ''.a{background:url(http://)}''"
  define css' where "css' = js ''.a{background:url(/api/proxy?url=http%3A%2F%2F)}''"
  define d where
    "d = [Element (js ''html'') []
        [Element (js ''head'') [] [Element (js ''style'') [] [Text css]],
         Element (js ''body'') []
           [Element (js ''a'') [(js ''href'', js ''http://'')] [Text (js ''bad'')],
            Element (js ''a'') [(js ''href'', js ''/x'')] [Text (js ''go'')]]]]"
  define d1 where
    "d1 = [Element (js ''html'') []
        [Element (js ''head'') [] [Element (js ''style'') [] [Text css]],
         Element (js ''body'') []
           [Element (js ''a'') [(js ''href'', js ''/api/proxy?url=http%3A%2F%2F'')] [Text (js ''bad'')],
            Element (js ''a'') [(js ''href'', js ''/api/proxy?url=https%3A%2F%2Fexample.com%2Fx'')]
              [Text (js ''go'')]]]]"
  have ne: "js ''html'' \<noteq> js ''body''" "js ''html'' \<noteq> js ''style''" "js ''body'' \<noteq> js ''style''"
    "js ''head'' \<noteq> js ''body''" "js ''head'' \<noteq> js ''style''" "js ''a'' \<noteq> js ''body''"
    "js ''a'' \<noteq> js ''style''" "js ''style'' \<noteq> js ''body''"
    by (simp_all add: js_eq_iff)
  have rd: "render example_cheerio (Some (js ''style'')) [Text css] = css"
    by (simp add: example_cheerio_def raw_text_elements_def)
  have h1: "example_URL (js ''http://'') b = None"
    by (simp add: example_URL_def b_def js_def cu_def)
  have h2: "wellformed_nodes d" by (simp add: d_def wellformed_js)
  have h3: "wellformed_styles example_cheerio d"
    by (simp add: d_def ne rd) (simp add: css_def wellformed_js)
  have h4: "\<forall>r. select (js ''body'') (parse_fragment example_cheerio (Some (js ''style'')) r) = []"
    by (simp add: example_cheerio_def)
  have a1: "rewrite_attrs example_URL b d = Inr d1"
    unfolding d_def d1_def b_def by (simp add: eval_defs)
  have c: "css_replace example_URL b css = Inr css'"
    unfolding css_def css'_def b_def
    by (simp add: url_match_def url_callback_def startsWith_def trim_def js_whitespace_def
        strip_quotes_def is_quote_def toAbsolute_def example_URL_def wrap_def uriUnescaped_def
        is_lead_def is_trail_def utf8_encode_def pct_def pct_octet_def hex_digit_def js_def cu_def)
  have ncss: "css' \<noteq> []" by (simp add: css'_def js_def)
  have pf: "parse_fragment example_cheerio (Some (js ''style'')) css' = [Text css']"
    using ncss by (simp add: example_cheerio_def)
  define d2 where
    "d2 = [Element (js ''html'') []
        [Element (js ''head'') [] [Element (js ''style'') [] [Text css']],
         Element (js ''body'') []
           [Element (js ''a'') [(js ''href'', js ''/api/proxy?url=http%3A%2F%2F'')] [Text (js ''bad'')],
            Element (js ''a'') [(js ''href'', js ''/api/proxy?url=https%3A%2F%2Fexample.com%2Fx'')]
              [Text (js ''go'')]]]]"
  have s1: "style_nodes example_cheerio example_URL b d1 = Inr d2"
    by (simp add: d1_def d2_def ne rd c pf)
  have tb: "toolbar example_cheerio b = example_toolbar b"
    unfolding b_def by (rule toolbar_example_page)
  have "rewrite_tree example_cheerio example_URL d b = Inr (prepend_nodes (example_toolbar b) d2)"
    by (simp add: rewrite_tree_def a1 s1 tb)
  also have "prepend_nodes (example_toolbar b) d2 =
      [Element (js ''html'') []
          [Element (js ''head'') [] [Element (js ''style'') [] [Text css']],
           Element (js ''body'') []
             (example_toolbar b @
              [Element (js ''a'') [(js ''href'', js ''/api/proxy?url=http%3A%2F%2F'')]
                 [Text (js ''bad'')],
               Element (js ''a'') [(js ''href'', js ''/api/proxy?url=https%3A%2F%2Fexample.com%2Fx'')]
                 [Text (js ''go'')]])]]"
    by (simp add: d2_def ne)
  finally have r: "rewrite_tree example_cheerio example_URL d b =
      Inr [Element (js ''html'') []
          [Element (js ''head'') [] [Element (js ''style'') [] [Text css']],
           Element (js ''body'') []
             (example_toolbar b @
              [Element (js ''a'') [(js ''href'', js ''/api/proxy?url=http%3A%2F%2F'')]
                 [Text (js ''bad'')],
               Element (js ''a'') [(js ''href'', js ''/api/proxy?url=https%3A%2F%2Fexample.com%2Fx'')]
                 [Text (js ''go'')]])]]" .
  from unresolvable_reference [where nu = example_URL and b = b and v = "js ''http://''",
      OF h1 h2 h3 h4]
  have "toAbsolute example_URL (js ''http://'') b = js ''http://''"
    by blast
  with h1 h2 h3 r show ?thesis unfolding d_def css_def css'_def b_def by (intro conjI)
qed

section \<open>Properties of the Relay Handler\<close>

lemma getHeader_send: "getHeader (send code body res) name = getHeader res name"
  by (simp add: getHeader_def send_def)

lemma map_of_setHeader:
  "map_of (res_headers (setHeader name v res)) k =
     (if k = toLowerCase name then Some (name, v) else map_of (res_headers res) k)"
  by (simp add: setHeader_def update_conv')

lemma map_of_set_all:
  "map_of (res_headers (set_all hs res)) k =
     (case map_of (rev (map (\<lambda>kv. (toLowerCase (fst kv), kv)) hs)) k of
        Some kv \<Rightarrow> Some kv
      | None \<Rightarrow> map_of (res_headers res) k)"
  unfolding set_all_def
proof (induction hs arbitrary: res)
  case Nil
  show ?case by simp
next
  case (Cons kv hs)
  show ?case
    by (simp add: Cons.IH map_of_setHeader map_add_def split: option.splits)
qed

lemma headers_get_entry:
  "headers_get hs name = Some v \<Longrightarrow> \<exists>k. (k, v) \<in> set hs \<and> toLowerCase k = toLowerCase name"
  unfolding headers_get_def by (fastforce dest!: map_of_SomeD)

lemma relayed_content_type:
  assumes u: "\<forall>kv\<in>set hs. toLowerCase (fst kv) = ''content-type'' \<longrightarrow> snd kv = ct"
    and g: "headers_get hs ''content-type'' = Some ct"
  shows "getHeader (set_all (filterResponseHeaders hs) (setHeader ''Content-Type'' v0 res))
     ''Content-Type'' = Some ct"
proof -
  from headers_get_entry [OF g] obtain k0 where
    k0: "(k0, ct) \<in> set hs" "toLowerCase k0 = ''content-type''"
    by (auto simp add: toLowerCase_def lower_char_def)
  have nd: "\<not> dropped k0 \<and> k0 \<noteq> ''__proto__''" using ct_not_dropped [OF k0(2)] .
  have ex: "\<exists>k\<in>fst ` set hs. toLowerCase k = ''content-type''" using k0 by force
  have out: "filterResponseHeaders hs = filter_loop hs"
    using ex by (simp add: filterResponseHeaders_def Let_def has_ct_filter_loop)
  have sub: "set (filter_loop hs) \<subseteq> set hs" by (rule set_filter_loop)
  have "k0 \<in> fst ` set (filter_loop hs)" using keys_filter_loop [of k0 hs] k0(1) nd by force
  then obtain v1 where v1: "(k0, v1) \<in> set (filter_loop hs)" by auto
  define m where "m = map (\<lambda>kv. (toLowerCase (fst kv), kv)) (filter_loop hs)"
  have "(''content-type'', (k0, v1)) \<in> set (rev m)" using v1 k0(2) by (force simp add: m_def)
  then have "''content-type'' \<in> fst ` set (rev m)" by force
  then obtain kv where kv: "map_of (rev m) ''content-type'' = Some kv"
    using map_of_eq_None_iff [of "rev m" "''content-type''"] by auto
  then have "(''content-type'', kv) \<in> set m" by (auto dest: map_of_SomeD)
  then have i: "kv \<in> set (filter_loop hs)" "toLowerCase (fst kv) = ''content-type''"
    by (auto simp add: m_def)
  then have "kv \<in> set hs" using sub by auto
  with u i(2) have "snd kv = ct" by blast
  then show ?thesis
    using kv by (simp add: getHeader_def map_of_set_all out m_def lower_Content_Type)
qed

text \<open>
  Claim C2: for every upstream response whose Content-Type contains \<open>text/html\<close>, the
  handler relays the rewritten body with the response header Content-Type equal to
  \<open>text/html; charset=utf-8\<close>, whatever Content-Type the upstream supplied.

  The handler sets that header and then copies the filtered upstream headers over it. The
  filter lets \<open>content-type\<close> through, and \<open>res.setHeader\<close> compares names without
  letter case, so the header the client receives is the upstream's own value. The theorem
  states what the code does for every such response (a \<open>Headers\<close> object holds one value
  per name, so every content-type entry carries the value \<open>ct\<close> that \<open>get\<close> returns);
  the claim holds only when the upstream value already is \<open>text/html; charset=utf-8\<close>.
\<close>

theorem handler_relays_upstream_content_type:
  assumes "query_url req = Some target" and "target \<noteq> []"
    and "parse_URL w target = Some u" and "protocol u \<in> {''http:'', ''https:''}"
    and "\<And>hs. fetch w (href u) hs = Inr upstream"
    and "\<forall>kv\<in>set (up_headers upstream).
           toLowerCase (fst kv) = ''content-type'' \<longrightarrow> snd kv = ct"
    and "headers_get (up_headers upstream) ''content-type'' = Some ct"
    and "str_includes ct ''text/html''"
    and "rewriteHtml (lib w) (resolve_URL w) (text_of w (up_body upstream)) (js (href u)) =
           Inr rewritten"
  shows "res_body (handler w req) = Some (Str rewritten) \<and>
     getHeader (handler w req) ''Content-Type'' = Some ct"
proof -
  have ne: "ct \<noteq> []" using assms(8) by (cases ct) auto
  have h: "handler w req =
      send (up_status upstream) (Str rewritten)
        (set_all (filterResponseHeaders (up_headers upstream))
           (setHeader ''Content-Type'' ''text/html; charset=utf-8'' new_response))"
    using assms(1-5,7-9) ne by (auto simp add: handler_def or_else_def Let_def)
  show ?thesis
    unfolding h using relayed_content_type [OF assms(6,7)]
    by (simp add: getHeader_send) (simp add: send_def)
qed
theorem handler_relays_upstream_content_type_witness:
  \<open>handler example_world example_request =
     \<lparr>res_headers = [(''content-type'', ''content-type'', ''text/html; charset=iso-8859-1'')],
      res_status = 200,
      res_body = Some (Str
        (js ''<html><head></head><body>\<newline>'' @
        js ''    <div id="proxy-bar" style="position:fixed;top:0;left:0;right:0;background:#111;color:#eee;font:14px/1.4 sans-serif;padding:8px;z-index:999999;">\<newline>'' @
        js ''      <form action="/api/proxy" method="GET" style="display:flex;gap:8px;">\<newline>'' @
        js ''        <input type="text" name="url" value="https://example.com/page" style="flex:1;padding:6px;border-radius:4px;border:1px solid #333;background:#222;color:#eee;">\<newline>'' @
        js ''        <button type="submit" style="padding:6px 10px;border-radius:4px;background:#444;color:#eee;border:1px solid #333;">Go</button>\<newline>'' @
        js ''        <span style="margin-left:auto;opacity:0.8">Proxying: https://example.com/page</span>\<newline>'' @
        js ''      </form>\<newline>'' @
        js ''    </div>\<newline>'' @
        js ''    <style>html,body{margin-top:40px !important}</style>\<newline>'' @
        js ''  hello</body></html>''))\<rparr> \<and>
   getHeader (handler example_world example_request) ''Content-Type'' =
     Some ''text/html; charset=iso-8859-1'' \<and>
   ''text/html; charset=iso-8859-1'' \<noteq> ''text/html; charset=utf-8''\<close>
proof -
  define u where "u = \<lparr>protocol = ''https:'', href = ''https://example.com/page''\<rparr>"
  define b where "b = js ''https://example.com/page''"
  define page where \<open>page =
        js ''<html><head></head><body>\<newline>'' @
        js ''    <div id="proxy-bar" style="position:fixed;top:0;left:0;right:0;background:#111;color:#eee;font:14px/1.4 sans-serif;padding:8px;z-index:999999;">\<newline>'' @
        js ''      <form action="/api/proxy" method="GET" style="display:flex;gap:8px;">\<newline>'' @
        js ''        <input type="text" name="url" value="https://example.com/page" style="flex:1;padding:6px;border-radius:4px;border:1px solid #333;background:#222;color:#eee;">\<newline>'' @
        js ''        <button type="submit" style="padding:6px 10px;border-radius:4px;background:#444;color:#eee;border:1px solid #333;">Go</button>\<newline>'' @
        js ''        <span style="margin-left:auto;opacity:0.8">Proxying: https://example.com/page</span>\<newline>'' @
        js ''      </form>\<newline>'' @
        js ''    </div>\<newline>'' @
        js ''    <style>html,body{margin-top:40px !important}</style>\<newline>'' @
        js ''  hello</body></html>''\<close>
  have ne: "js ''html'' \<noteq> js ''body''" "js ''html'' \<noteq> js ''style''" "js ''body'' \<noteq> js ''style''"
    "js ''head'' \<noteq> js ''body''" "js ''head'' \<noteq> js ''style''"
    by (simp_all add: js_eq_iff)
  have ld: "load example_cheerio (js ''hello'') =
      [Element (js ''html'') []
         [Element (js ''head'') [] [], Element (js ''body'') [] [Text (js ''hello'')]]]"
    by (simp add: example_cheerio_def)
  have a1: "rewrite_attrs example_URL b
      [Element (js ''html'') []
         [Element (js ''head'') [] [], Element (js ''body'') [] [Text (js ''hello'')]]] =
      Inr [Element (js ''html'') []
         [Element (js ''head'') [] [], Element (js ''body'') [] [Text (js ''hello'')]]]"
    by (simp add: rewrite_attrs_def attrTargets_def js_eq_iff)
  have tb: "toolbar example_cheerio b = example_toolbar b"
    unfolding b_def by (rule toolbar_example_page)
  have rt: "rewrite_tree example_cheerio example_URL (load example_cheerio (js ''hello'')) b =
      Inr [Element (js ''html'') []
         [Element (js ''head'') [] [],
          Element (js ''body'') [] (example_toolbar b @ [Text (js ''hello'')])]]"
    unfolding ld rewrite_tree_def a1 tb by (simp add: ne)
  have rn: "render example_cheerio None
      [Element (js ''html'') []
         [Element (js ''head'') [] [],
          Element (js ''body'') [] (example_toolbar b @ [Text (js ''hello'')])]] = page"
    unfolding page_def b_def
    by (simp add: example_cheerio_def example_toolbar_def void_elements_def raw_text_elements_def
        escape_text_def escape_attr_def js_def cu_def)
  have rw: "rewriteHtml example_cheerio example_URL (js ''hello'') b = Inr page"
    unfolding rewriteHtml_def rt by (simp add: rn)
  have h1: "query_url example_request = Some (js ''https://example.com/page'')"
    by (simp add: example_request_def)
  have h2: "js ''https://example.com/page'' \<noteq> []" by (simp add: js_def)
  have h3: "parse_URL example_world (js ''https://example.com/page'') = Some u"
    by (simp add: example_world_def u_def)
  have h4: "protocol u \<in> {''http:'', ''https:''}" by (simp add: u_def)
  have h5: "\<And>hs. fetch example_world (href u) hs = Inr example_upstream"
    by (simp add: example_world_def u_def)
  have h6: "\<forall>kv\<in>set (up_headers example_upstream).
      toLowerCase (fst kv) = ''content-type'' \<longrightarrow> snd kv = ''text/html; charset=iso-8859-1''"
    by (simp add: example_upstream_def)
  have h7: "headers_get (up_headers example_upstream) ''content-type'' =
      Some ''text/html; charset=iso-8859-1''"
    by (simp add: example_upstream_def headers_get_def toLowerCase_def lower_char_def)
  have h8: "str_includes ''text/html; charset=iso-8859-1'' ''text/html''" by simp
  have h9: "rewriteHtml (lib example_world) (resolve_URL example_world)
      (text_of example_world (up_body example_upstream)) (js (href u)) = Inr page"
    using rw by (simp add: example_world_def example_upstream_def u_def b_def)
  have fl: "filterResponseHeaders (up_headers example_upstream) =
      [(''content-type'', ''text/html; charset=iso-8859-1'')]"
    by (simp add: example_upstream_def filterResponseHeaders_def filter_loop_def filter_step_def
        obj_set_def hopByHop_def toLowerCase_def lower_char_def)
  have hd: "handler example_world example_request =
      send (up_status example_upstream) (Str page)
        (set_all (filterResponseHeaders (up_headers example_upstream))
           (setHeader ''Content-Type'' ''text/html; charset=utf-8'' new_response))"
    using h1 h2 h3 h4 h5 h7 h8 h9 by (simp add: handler_def or_else_def Let_def)
  have r: "handler example_world example_request =
     \<lparr>res_headers = [(''content-type'', ''content-type'', ''text/html; charset=iso-8859-1'')],
      res_status = 200, res_body = Some (Str page)\<rparr>"
    unfolding hd fl
    by (simp add: send_def set_all_def setHeader_def new_response_def toLowerCase_def
        lower_char_def example_upstream_def)
  from handler_relays_upstream_content_type [OF h1 h2 h3 h4 h5 h6 h7 h8 h9] r
  show ?thesis unfolding page_def by simp
qed


end
